theory Spec2Isabelle
  imports Complex_Main "HOL-Library.Word"
begin

section \<open>Open-addressing hash table (HashTable.cpp)\<close>

text \<open>
  A shallow embedding of the class \<open>OAHashTable<T>\<close>. The C++ type \<open>unsigned\<close> is a
  32-bit word, so that index arithmetic wraps as in the program. A finite \<open>double\<close> is
  the rational it denotes; the two \<open>double\<close> members \<open>max_load_factor\<close> and
  \<open>growth_factor\<close> are rationals, and every quotient and product of doubles is rounded
  to the nearest double by \<open>to_double\<close>. The value type \<open>T\<close> is pointer-like in the
  source (it is compared with and assigned \<open>nullptr\<close>): a value is \<open>'a option\<close>, with
  \<open>None\<close> the null pointer. A key argument is a \<open>string option\<close>, with \<open>None\<close> the null
  pointer. Embedded are \<open>insert\<close>, \<open>find\<close>, \<open>remove\<close> and the private functions they
  call; the names \<open>insert\<close>, \<open>find\<close> and \<open>remove\<close> carry the suffix \<open>_ht\<close>.
\<close>

type_synonym u32 = "32 word"

datatype OAHTSlot_State = OCCUPIED | UNOCCUPIED | DELETED

record 'a OAHTSlot =
  Key :: string
  data :: "'a option"
  State :: OAHTSlot_State
  slot_probes :: int

datatype OAHTDeletionPolicy = MARK | PACK

datatype OAHTException_code = E_ITEM_NOT_FOUND | E_NO_MEMORY

type_synonym OAHashTableException = "OAHTException_code \<times> string"

text \<open>
  The members fixed by the constructor. \<open>freeProc\<close> tells whether a release callback
  is configured; its calls are recorded in the table's \<open>released\<close> log. The header is
  not part of the sources: the constant \<open>MAX_KEYLEN\<close> and the helper
  \<open>GetClosestPrime\<close> it declares are parameters here.
\<close>

record OAHTConfig =
  primary_hash_func :: "string \<Rightarrow> u32 \<Rightarrow> u32"
  secondary_hash_func :: "(string \<Rightarrow> u32 \<Rightarrow> u32) option"
  max_load_factor :: rat
  growth_factor :: rat
  deletion_policy :: OAHTDeletionPolicy
  freeProc :: bool
  MAX_KEYLEN :: nat
  GetClosestPrime :: "u32 \<Rightarrow> u32"

text \<open>The mutable members, and the log of the values handed to \<open>freeProc\<close>.\<close>

record 'a OAHashTable =
  table :: "'a OAHTSlot list"
  tableSize :: u32
  count :: u32
  probes :: u32
  expansions :: u32
  released :: "'a list"

text \<open>
  What a call does: it returns, it throws (the table keeps what was written before
  the throw), it runs into undefined behaviour of C++ (a read or write outside the
  slot array, a remainder by zero, a buffer overrun, a double outside the range of
  \<open>unsigned\<close>), or the model's fuel runs out.
\<close>

datatype ('r, 'a) outcome =
    Return 'r "'a OAHashTable"
  | Throw OAHashTableException "'a OAHashTable"
  | UndefinedBehaviour
  | OutOfFuel

definition slot_at :: "'a OAHashTable \<Rightarrow> u32 \<Rightarrow> 'a OAHTSlot option" where
  "slot_at t i = (if unat i < length (table t) then Some (table t ! unat i) else None)"

text \<open>\<open>secondary_hash_func ? secondary_hash_func(Key, tableSize - 1) + 1 : 1\<close>\<close>

definition stride_of :: "OAHTConfig \<Rightarrow> 'a OAHashTable \<Rightarrow> string \<Rightarrow> u32" where
  "stride_of cfg t k =
     (case secondary_hash_func cfg of
        None \<Rightarrow> 1
      | Some h \<Rightarrow> h k (tableSize t - 1) + 1)"

text \<open>
  The three assignments that fill a slot, and \<open>++count\<close>. \<open>strncpy\<close> copies at most
  \<open>MAX_KEYLEN - 1\<close> characters and pads with zeros; the last byte of the key buffer is
  never written and stays zero, so the stored string is the truncated key.
\<close>

definition store_slot :: "OAHTConfig \<Rightarrow> 'a OAHashTable \<Rightarrow> u32 \<Rightarrow> string \<Rightarrow> 'a option \<Rightarrow> 'a OAHashTable" where
  "store_slot cfg t i k d =
     t\<lparr>table := (table t)[unat i := (table t ! unat i)
                   \<lparr>Key := take (MAX_KEYLEN cfg - 1) k, data := d, State := OCCUPIED\<rparr>],
       count := count t + 1\<rparr>"

subsection \<open>linearProbeInsert\<close>

text \<open>
  The do-while loop of \<open>linearProbeInsert\<close>. \<open>pc\<close> is \<open>probesCount\<close>, \<open>del\<close> is
  \<open>deletedIndex\<close> (\<open>None\<close> for \<open>-1\<close>).
\<close>

fun lpi_loop :: "nat \<Rightarrow> OAHTConfig \<Rightarrow> 'a OAHashTable \<Rightarrow> string \<Rightarrow> 'a option \<Rightarrow>
    u32 \<Rightarrow> u32 \<Rightarrow> u32 \<Rightarrow> u32 \<Rightarrow> u32 option \<Rightarrow> (unit, 'a) outcome" where
  "lpi_loop 0 cfg t k d orig stride index pc del = OutOfFuel"
| "lpi_loop (Suc n) cfg t k d orig stride index pc del =
     (case slot_at t index of
        None \<Rightarrow> UndefinedBehaviour
      | Some s \<Rightarrow>
          if State s = UNOCCUPIED then
            (case del of
               Some di \<Rightarrow> Return () ((store_slot cfg t di k d)\<lparr>probes := probes t + (pc + 1)\<rparr>)
             | None \<Rightarrow> Return () ((store_slot cfg t index k d)\<lparr>probes := probes t + (pc + 1)\<rparr>))
          else
            (let del' = (if State s = DELETED \<and> del = None then Some index else del) in
             if tableSize t = 0 then UndefinedBehaviour
             else
               (let index' = (index + stride) mod tableSize t in
                if index' \<noteq> orig then lpi_loop n cfg t k d orig stride index' (pc + 1) del'
                else
                  (case del' of
                     Some di \<Rightarrow> Return () (store_slot cfg (t\<lparr>probes := probes t + (pc + 1)\<rparr>) di k d)
                   | None \<Rightarrow> Throw (E_NO_MEMORY, ''Failed to insert item.'')
                                   (t\<lparr>probes := probes t + (pc + 1)\<rparr>)))))"

definition linearProbeInsert :: "nat \<Rightarrow> OAHTConfig \<Rightarrow> 'a OAHashTable \<Rightarrow> string \<Rightarrow> 'a option \<Rightarrow> (unit, 'a) outcome" where
  "linearProbeInsert n cfg t k d =
     (let originalIndex = primary_hash_func cfg k (tableSize t)
      in lpi_loop n cfg t k d originalIndex (stride_of cfg t k) originalIndex 0 None)"

subsection \<open>Arithmetic of the type double\<close>

text \<open>
  The result of an operation on doubles is the exact result rounded to the nearest
  binary64 number, ties to the even significand (the rounding mode a C++ program
  starts in). \<open>bit_length n\<close> is the number of binary digits of \<open>n\<close>, and \<open>ilog2 x\<close> the
  exponent of the leading binary digit of a positive rational \<open>x\<close>. A binary64 number has
  53 significant digits, and none below \<open>2 powi (- 1074)\<close>. Results of magnitude
  \<open>2 ^ 1024\<close> and more, which are infinities in the program, stay finite here;
  the one place where they can arise, \<open>new_size\<close>, rejects them as it rejects an
  infinity.
\<close>

function bit_length :: "int \<Rightarrow> nat" where
  "bit_length n = (if n \<le> 0 then 0 else Suc (bit_length (n div 2)))"
  by pat_completeness auto
termination
  by (relation "measure nat") auto

declare bit_length.simps [simp del]

definition ilog2 :: "rat \<Rightarrow> int" where
  "ilog2 x =
     (case quotient_of x of (p, q) \<Rightarrow>
        let k = int (bit_length p) - int (bit_length q)
        in if 2 powi k \<le> x then k else k - 1)"

definition round_even :: "rat \<Rightarrow> int" where
  "round_even x =
     (let f = \<lfloor>x\<rfloor>; r = x - of_int f
      in if r < 1 / 2 then f else if 1 / 2 < r then f + 1 else if even f then f else f + 1)"

definition round_pos :: "rat \<Rightarrow> rat" where
  "round_pos x =
     (let e = max (ilog2 x - 52) (- 1074)
      in of_int (round_even (x / 2 powi e)) * 2 powi e)"

definition to_double :: "rat \<Rightarrow> rat" where
  "to_double x = (if x = 0 then 0 else if 0 < x then round_pos x else - round_pos (- x))"

subsection \<open>CheckResizeRequired, resizeTable, insert\<close>

text \<open>
  \<open>Count_ + 1\<close> is an unsigned sum; it and \<open>TableSize_\<close> convert to double exactly, and
  their quotient is rounded. A zero divisor gives an infinity (greater than every load
  factor) or, for \<open>0 / 0\<close>, a NaN (greater than nothing).
\<close>

definition CheckResizeRequired :: "OAHTConfig \<Rightarrow> 'a OAHashTable \<Rightarrow> bool" where
  "CheckResizeRequired cfg t =
     (if max_load_factor cfg = 1 then count t = tableSize t
      else if tableSize t = 0 then count t + 1 \<noteq> 0
      else to_double (of_nat (unat (count t + 1)) / of_nat (unat (tableSize t))) > max_load_factor cfg)"

text \<open>
  \<open>static_cast<unsigned>(std::ceil(TableSize_ * growth_factor))\<close>: the product is
  rounded, \<open>std::ceil\<close> is exact, and the conversion is undefined outside the range of
  \<open>unsigned\<close>.
\<close>

definition new_size :: "OAHTConfig \<Rightarrow> 'a OAHashTable \<Rightarrow> u32 option" where
  "new_size cfg t =
     (let c = \<lceil>to_double (of_nat (unat (tableSize t)) * growth_factor cfg)\<rceil>
      in if 0 \<le> c \<and> c < 2 ^ 32 then Some (word_of_int c) else None)"

text \<open>
  The member \<open>LoadFactor_\<close> of \<open>GetStats\<close>, for a capacity other than 0:
  \<open>static_cast<double>(count) / static_cast<double>(tableSize)\<close>.
\<close>

definition LoadFactor :: "'a OAHashTable \<Rightarrow> rat" where
  "LoadFactor t = to_double (of_nat (unat (count t)) / of_nat (unat (tableSize t)))"

text \<open>A slot of \<open>new OAHTSlot[n]()\<close> after \<open>InitTable\<close>.\<close>

definition init_slot :: "'a OAHTSlot" where
  "init_slot = \<lparr>Key = [], data = None, State = UNOCCUPIED, slot_probes = 0\<rparr>"

text \<open>The head of \<open>resizeTable\<close>: the new array, \<open>++expansions\<close>, \<open>count = 0\<close>, \<open>InitTable\<close>.\<close>

definition alloc_table :: "OAHTConfig \<Rightarrow> 'a OAHashTable \<Rightarrow> u32 \<Rightarrow> 'a OAHashTable" where
  "alloc_table cfg t newSize =
     (let m = GetClosestPrime cfg newSize
      in t\<lparr>tableSize := m, table := replicate (unat m) init_slot,
           expansions := expansions t + 1, count := 0\<rparr>)"

text \<open>
  \<open>insert\<close> (here \<open>insert_ht\<close>) and the rehash loop of \<open>resizeTable\<close> call each other. The fuel bounds the
  depth of the calls; the loop runs over the indices \<open>0 ..< oldSize\<close> of the old array.
\<close>

fun insert_ht :: "nat \<Rightarrow> OAHTConfig \<Rightarrow> 'a OAHashTable \<Rightarrow> string option \<Rightarrow> 'a option \<Rightarrow> (unit, 'a) outcome"
and rehash_loop :: "nat \<Rightarrow> OAHTConfig \<Rightarrow> 'a OAHTSlot list \<Rightarrow> nat list \<Rightarrow> 'a OAHashTable \<Rightarrow> (unit, 'a) outcome" where
  "insert_ht n cfg t None d = Throw (E_NO_MEMORY, ''Key cannot be null.'') t"
| "insert_ht 0 cfg t (Some k) d = OutOfFuel"
| "insert_ht (Suc n) cfg t (Some k) d =
     (if CheckResizeRequired cfg t then
        (case new_size cfg t of
           None \<Rightarrow> UndefinedBehaviour
         | Some newSize \<Rightarrow>
             (case rehash_loop n cfg (table t) [0 ..< unat (tableSize t)] (alloc_table cfg t newSize) of
                Return u t' \<Rightarrow> linearProbeInsert (Suc n) cfg t' k d
              | Throw e t' \<Rightarrow> Throw e t'
              | UndefinedBehaviour \<Rightarrow> UndefinedBehaviour
              | OutOfFuel \<Rightarrow> OutOfFuel))
      else linearProbeInsert (Suc n) cfg t k d)"
| "rehash_loop n cfg oldTable [] t = Return () t"
| "rehash_loop n cfg oldTable (i # is) t =
     (if i < length oldTable then
        (if State (oldTable ! i) = OCCUPIED then
           (case insert_ht n cfg t (Some (Key (oldTable ! i))) (data (oldTable ! i)) of
              Return u t' \<Rightarrow> rehash_loop n cfg oldTable is t'
            | Throw e t' \<Rightarrow> Throw e t'
            | UndefinedBehaviour \<Rightarrow> UndefinedBehaviour
            | OutOfFuel \<Rightarrow> OutOfFuel)
         else rehash_loop n cfg oldTable is t)
      else UndefinedBehaviour)"

definition resizeTable :: "nat \<Rightarrow> OAHTConfig \<Rightarrow> 'a OAHashTable \<Rightarrow> u32 \<Rightarrow> (unit, 'a) outcome" where
  "resizeTable n cfg t newSize =
     rehash_loop n cfg (table t) [0 ..< unat (tableSize t)] (alloc_table cfg t newSize)"

subsection \<open>find\<close>

text \<open>
  The do-while loop of \<open>find\<close>. The loop reads the slots and writes only the member
  \<open>probes\<close>, which is threaded as \<open>pr\<close> and written back by \<open>find_ht\<close>. The result is
  \<open>keyFound\<close>, the last \<open>index\<close> and the probe counter.
\<close>

datatype find_end = FindEnd bool u32 u32 | FindUB | FindOutOfFuel

fun find_loop :: "nat \<Rightarrow> 'a OAHashTable \<Rightarrow> string \<Rightarrow> u32 \<Rightarrow> u32 \<Rightarrow> u32 \<Rightarrow> u32 \<Rightarrow> find_end" where
  "find_loop 0 t k orig stride index pr = FindOutOfFuel"
| "find_loop (Suc n) t k orig stride index pr =
     (case slot_at t index of
        None \<Rightarrow> FindUB
      | Some s \<Rightarrow>
          if State s = OCCUPIED \<and> Key s = k then FindEnd True index (pr + 1)
          else if State s = UNOCCUPIED then FindEnd False index (pr + 1)
          else if tableSize t = 0 then FindUB
          else
            (let index' = (index + stride) mod tableSize t in
             if index' \<noteq> orig then find_loop n t k orig stride index' (pr + 1)
             else FindEnd False index' (pr + 1)))"

fun find_ht :: "nat \<Rightarrow> OAHTConfig \<Rightarrow> 'a OAHashTable \<Rightarrow> string option \<Rightarrow> ('a option, 'a) outcome" where
  "find_ht n cfg t None = Throw (E_ITEM_NOT_FOUND, ''Key cannot be null.'') t"
| "find_ht n cfg t (Some k) =
     (let originalIndex = primary_hash_func cfg k (tableSize t)
      in case find_loop n t k originalIndex (stride_of cfg t k) originalIndex (probes t) of
           FindEnd keyFound index pr \<Rightarrow>
             (if keyFound then
                (case slot_at t index of
                   None \<Rightarrow> UndefinedBehaviour
                 | Some s \<Rightarrow> Return (data s) (t\<lparr>probes := pr\<rparr>))
              else Throw (E_ITEM_NOT_FOUND, ''Item not found in table.'') (t\<lparr>probes := pr\<rparr>))
         | FindUB \<Rightarrow> UndefinedBehaviour
         | FindOutOfFuel \<Rightarrow> OutOfFuel)"

subsection \<open>packTable and remove\<close>

text \<open>
  The first loop of \<open>packTable\<close>: the stopping index. \<open>currentIndex - stride\<close> is an
  unsigned difference.
\<close>

fun pack_first :: "nat \<Rightarrow> 'a OAHashTable \<Rightarrow> u32 \<Rightarrow> u32 \<Rightarrow> u32 \<Rightarrow> (u32, 'a) outcome" where
  "pack_first 0 t stride index currentIndex = OutOfFuel"
| "pack_first (Suc n) t stride index currentIndex =
     (if tableSize t = 0 then UndefinedBehaviour
      else
        (let currentIndex' = (currentIndex + stride) mod tableSize t in
         case slot_at t currentIndex' of
           None \<Rightarrow> UndefinedBehaviour
         | Some s \<Rightarrow>
             if State s = UNOCCUPIED then Return ((currentIndex' - stride) mod tableSize t) t
             else if currentIndex' = index then Return currentIndex' t
             else pack_first n t stride index currentIndex'))"

text \<open>
  The second loop of \<open>packTable\<close>. \<open>localKey\<close> has \<open>MAX_KEYLEN - 1\<close> bytes, so
  \<open>strcpy\<close> overruns it when the stored key has \<open>MAX_KEYLEN - 1\<close> characters.
\<close>

fun pack_second :: "nat \<Rightarrow> OAHTConfig \<Rightarrow> 'a OAHashTable \<Rightarrow> u32 \<Rightarrow> u32 \<Rightarrow> u32 \<Rightarrow> (unit, 'a) outcome" where
  "pack_second 0 cfg t stride currentIndex stoppingIndex = OutOfFuel"
| "pack_second (Suc n) cfg t stride currentIndex stoppingIndex =
     (if currentIndex \<noteq> stoppingIndex then
        (if tableSize t = 0 then UndefinedBehaviour
         else
           (let currentIndex' = (currentIndex + stride) mod tableSize t in
            case slot_at t currentIndex' of
              None \<Rightarrow> UndefinedBehaviour
            | Some s \<Rightarrow>
                if MAX_KEYLEN cfg - 1 < length (Key s) + 1 then UndefinedBehaviour
                else
                  (let localKey = Key s;
                       localData = data s;
                       t1 = t\<lparr>table := (table t)[unat currentIndex' := s\<lparr>State := UNOCCUPIED\<rparr>],
                              count := count t - 1\<rparr>
                   in case insert_ht n cfg t1 (Some localKey) localData of
                        Return u t2 \<Rightarrow> pack_second n cfg t2 stride currentIndex' stoppingIndex
                      | Throw e t2 \<Rightarrow> Throw e t2
                      | UndefinedBehaviour \<Rightarrow> UndefinedBehaviour
                      | OutOfFuel \<Rightarrow> OutOfFuel)))
      else Return () t)"

definition packTable :: "nat \<Rightarrow> OAHTConfig \<Rightarrow> 'a OAHashTable \<Rightarrow> u32 \<Rightarrow> (unit, 'a) outcome" where
  "packTable n cfg t index =
     (if deletion_policy cfg \<noteq> PACK then Return () t
      else
        (case (case secondary_hash_func cfg of
                 None \<Rightarrow> Some 1
               | Some h \<Rightarrow> map_option (\<lambda>s. h (Key s) (tableSize t - 1) + 1) (slot_at t index)) of
           None \<Rightarrow> UndefinedBehaviour
         | Some stride \<Rightarrow>
             (case pack_first n t stride index index of
                Return stoppingIndex t' \<Rightarrow> pack_second n cfg t' stride index stoppingIndex
              | Throw e t' \<Rightarrow> Throw e t'
              | UndefinedBehaviour \<Rightarrow> UndefinedBehaviour
              | OutOfFuel \<Rightarrow> OutOfFuel)))"

text \<open>
  The body of \<open>remove\<close> for a matching slot: the release of the value, then the
  deletion policy.
\<close>

definition release_slot :: "OAHTConfig \<Rightarrow> 'a OAHashTable \<Rightarrow> u32 \<Rightarrow> 'a OAHashTable" where
  "release_slot cfg t i =
     (case data (table t ! unat i) of
        Some v \<Rightarrow>
          if freeProc cfg
          then t\<lparr>table := (table t)[unat i := (table t ! unat i)\<lparr>data := None\<rparr>],
                 released := released t @ [v]\<rparr>
          else t
      | None \<Rightarrow> t)"

definition set_State :: "'a OAHashTable \<Rightarrow> u32 \<Rightarrow> OAHTSlot_State \<Rightarrow> 'a OAHashTable" where
  "set_State t i st = t\<lparr>table := (table t)[unat i := (table t ! unat i)\<lparr>State := st\<rparr>]\<rparr>"

text \<open>The do-while loop of \<open>remove\<close>; the result is \<open>keyFound\<close> and \<open>probesCount\<close>.\<close>

fun remove_loop :: "nat \<Rightarrow> OAHTConfig \<Rightarrow> 'a OAHashTable \<Rightarrow> string \<Rightarrow> u32 \<Rightarrow> u32 \<Rightarrow> u32 \<Rightarrow> u32 \<Rightarrow>
    (bool \<times> u32, 'a) outcome" where
  "remove_loop 0 cfg t k orig stride index pc = OutOfFuel"
| "remove_loop (Suc n) cfg t k orig stride index pc =
     (case slot_at t index of
        None \<Rightarrow> UndefinedBehaviour
      | Some s \<Rightarrow>
          if State s = OCCUPIED \<and> Key s = k then
            (let t1 = release_slot cfg t index in
             case deletion_policy cfg of
               PACK \<Rightarrow>
                 (case packTable n cfg (set_State t1 index UNOCCUPIED) index of
                    Return u t2 \<Rightarrow> Return (True, pc + 1) (t2\<lparr>count := count t2 - 1\<rparr>)
                  | Throw e t2 \<Rightarrow> Throw e t2
                  | UndefinedBehaviour \<Rightarrow> UndefinedBehaviour
                  | OutOfFuel \<Rightarrow> OutOfFuel)
             | MARK \<Rightarrow> Return (True, pc + 1) ((set_State t1 index DELETED)\<lparr>count := count t1 - 1\<rparr>))
          else if State s = UNOCCUPIED then Return (False, pc + 1) t
          else if tableSize t = 0 then UndefinedBehaviour
          else
            (let index' = (index + stride) mod tableSize t in
             if index' \<noteq> orig then remove_loop n cfg t k orig stride index' (pc + 1)
             else Return (False, pc + 1) t))"

fun remove_ht :: "nat \<Rightarrow> OAHTConfig \<Rightarrow> 'a OAHashTable \<Rightarrow> string option \<Rightarrow> (unit, 'a) outcome" where
  "remove_ht n cfg t None = Throw (E_ITEM_NOT_FOUND, ''Key not in table.'') t"
| "remove_ht n cfg t (Some k) =
     (let originalIndex = primary_hash_func cfg k (tableSize t)
      in case remove_loop n cfg t k originalIndex (stride_of cfg t k) originalIndex 0 of
           Return (keyFound, probesCount) t' \<Rightarrow>
             (if keyFound then Return () (t'\<lparr>probes := probes t' + probesCount\<rparr>)
              else Throw (E_ITEM_NOT_FOUND, ''Key not in table.'') (t'\<lparr>probes := probes t' + probesCount\<rparr>))
         | Throw e t' \<Rightarrow> Throw e t'
         | UndefinedBehaviour \<Rightarrow> UndefinedBehaviour
         | OutOfFuel \<Rightarrow> OutOfFuel)"

subsection \<open>Derived notions\<close>

text \<open>
  The table that the probe of \<open>insert\<close> runs on: the table itself, or the grown table
  when \<open>CheckResizeRequired\<close> holds and \<open>resizeTable\<close> returns.
\<close>

definition probed_table :: "nat \<Rightarrow> OAHTConfig \<Rightarrow> 'a OAHashTable \<Rightarrow> 'a OAHashTable option" where
  "probed_table n cfg t =
     (if CheckResizeRequired cfg t then
        (case new_size cfg t of
           None \<Rightarrow> None
         | Some newSize \<Rightarrow>
             (case resizeTable n cfg t newSize of
                Return u t' \<Rightarrow> Some t'
              | Throw e t' \<Rightarrow> None
              | UndefinedBehaviour \<Rightarrow> None
              | OutOfFuel \<Rightarrow> None))
      else Some t)"

text \<open>
  The capacity that one call of \<open>resizeTable\<close> from \<open>insert\<close> gives a table of
  capacity \<open>m\<close>.
\<close>

definition grow_step :: "OAHTConfig \<Rightarrow> u32 \<Rightarrow> u32" where
  "grow_step cfg m =
     GetClosestPrime cfg (word_of_int \<lceil>to_double (of_nat (unat m) * growth_factor cfg)\<rceil>)"

text \<open>
  The growth condition in the words of the specification, in exact arithmetic:
  \<open>max_load_factor == 1\<close> and \<open>count == capacity\<close>, or otherwise
  \<open>(count + 1) / capacity > max_load_factor\<close>.
\<close>

definition spec_growth_required :: "OAHTConfig \<Rightarrow> 'a OAHashTable \<Rightarrow> bool" where
  "spec_growth_required cfg t =
     (if max_load_factor cfg = 1 then count t = tableSize t
      else (of_nat (unat (count t)) + 1) / of_nat (unat (tableSize t)) > max_load_factor cfg)"

text \<open>The number of Occupied slots of a slot array.\<close>

definition occupied_count :: "'a OAHTSlot list \<Rightarrow> nat" where
  "occupied_count slots = length (filter (\<lambda>s. State s = OCCUPIED) slots)"

text \<open>
  One growth step makes room: in a table of the grown capacity, one entry more than
  \<open>count\<close> is within the load factor, the quotient being the double that \<open>GetStats\<close>
  would report.
\<close>

definition room_after_growth :: "OAHTConfig \<Rightarrow> 'a OAHashTable \<Rightarrow> bool" where
  "room_after_growth cfg t =
     (let m = grow_step cfg (tableSize t)
      in m \<noteq> 0 \<and> to_double (of_nat (Suc (unat (count t))) / of_nat (unat m)) \<le> max_load_factor cfg)"

text \<open>No occupied slot holds the key \<open>k\<close>.\<close>

definition key_absent :: "'a OAHashTable \<Rightarrow> string \<Rightarrow> bool" where
  "key_absent t k = list_all (\<lambda>s. State s = OCCUPIED \<longrightarrow> Key s \<noteq> k) (table t)"

text \<open>Every key buffer holds a string of at most \<open>MAX_KEYLEN - 1\<close> characters.\<close>

definition keys_fit :: "OAHTConfig \<Rightarrow> 'a OAHashTable \<Rightarrow> bool" where
  "keys_fit cfg t = list_all (\<lambda>s. length (Key s) \<le> MAX_KEYLEN cfg - 1) (table t)"

text \<open>A property of the table a call leaves behind, whether it returns or throws.\<close>

definition ends_with :: "('r, 'a) outcome \<Rightarrow> ('a OAHashTable \<Rightarrow> bool) \<Rightarrow> bool" where
  "ends_with r P =
     (case r of
        Return u t' \<Rightarrow> P t'
      | Throw e t' \<Rightarrow> P t'
      | UndefinedBehaviour \<Rightarrow> True
      | OutOfFuel \<Rightarrow> True)"

text \<open>
  The probe sequence of a key: the indices that the do-while loops of
  \<open>linearProbeInsert\<close>, \<open>find\<close> and \<open>remove\<close> visit from \<open>index\<close> on when nothing stops
  them, up to the return to \<open>orig\<close> (\<open>index = (index + stride) % tableSize\<close> while
  \<open>index != originalIndex\<close>).
\<close>

fun probe_walk :: "nat \<Rightarrow> u32 \<Rightarrow> u32 \<Rightarrow> u32 \<Rightarrow> u32 \<Rightarrow> u32 list option" where
  "probe_walk 0 m stride orig index = None"
| "probe_walk (Suc n) m stride orig index =
     (let index' = (index + stride) mod m in
      if index' \<noteq> orig then map_option ((#) index) (probe_walk n m stride orig index')
      else Some [index])"

definition state_at :: "'a OAHashTable \<Rightarrow> u32 \<Rightarrow> OAHTSlot_State" where
  "state_at t i = State (table t ! unat i)"

text \<open>
  The slot that an insertion along the probe sequence \<open>ps\<close> fills, in the words of the
  specification: the walk stops at the first Empty slot; the first Deleted slot seen
  on the way is used if there is one, otherwise that Empty slot; with neither, none.
\<close>

definition insert_point :: "'a OAHashTable \<Rightarrow> u32 list \<Rightarrow> u32 option" where
  "insert_point t ps =
     (let walked = takeWhile (\<lambda>i. state_at t i \<noteq> UNOCCUPIED) ps in
      case List.find (\<lambda>i. state_at t i = DELETED) walked of
        Some di \<Rightarrow> Some di
      | None \<Rightarrow> List.find (\<lambda>i. state_at t i = UNOCCUPIED) ps)"

text \<open>The number of slots examined: those walked, and the Empty slot that stops the walk.\<close>

definition slots_examined :: "'a OAHashTable \<Rightarrow> u32 list \<Rightarrow> nat" where
  "slots_examined t ps =
     min (length ps) (Suc (length (takeWhile (\<lambda>i. state_at t i \<noteq> UNOCCUPIED) ps)))"

text \<open>The end of an insertion that has examined its slots: the store, or the throw.\<close>

definition lpi_end :: "OAHTConfig \<Rightarrow> 'a OAHashTable \<Rightarrow> string \<Rightarrow> 'a option \<Rightarrow> u32 \<Rightarrow> u32 option \<Rightarrow> (unit, 'a) outcome" where
  "lpi_end cfg t k d q target =
     (case target of
        Some p \<Rightarrow> Return () ((store_slot cfg t p k d)\<lparr>probes := q\<rparr>)
      | None \<Rightarrow> Throw (E_NO_MEMORY, ''Failed to insert item.'') (t\<lparr>probes := q\<rparr>))"

text \<open>
  The result of the probe loop entered with \<open>pc\<close> probes and the tombstone \<open>del\<close>,
  over the rest \<open>ps\<close> of the probe sequence.
\<close>

definition lpi_spec :: "OAHTConfig \<Rightarrow> 'a OAHashTable \<Rightarrow> string \<Rightarrow> 'a option \<Rightarrow> u32 \<Rightarrow> u32 option \<Rightarrow> u32 list \<Rightarrow> (unit, 'a) outcome" where
  "lpi_spec cfg t k d pc del ps =
     lpi_end cfg t k d (probes t + (pc + of_nat (slots_examined t ps)))
       (if del = None then insert_point t ps else del)"

text \<open>
  A slot that \<open>find\<close> and \<open>remove\<close> step over for the key \<open>k\<close>: it is not Empty, and
  it is not an Occupied slot with that key.
\<close>

definition skipped :: "'a OAHashTable \<Rightarrow> string \<Rightarrow> u32 \<Rightarrow> bool" where
  "skipped t k i =
     (unat i < length (table t) \<and> state_at t i \<noteq> UNOCCUPIED \<and>
      \<not> (state_at t i = OCCUPIED \<and> Key (table t ! unat i) = k))"

text \<open>
  The number of slots that \<open>find\<close> and \<open>remove\<close> examine for the key \<open>k\<close> along the
  probe sequence \<open>ps\<close>: those stepped over, and the slot that stops the walk.
\<close>

definition lookup_examined :: "'a OAHashTable \<Rightarrow> string \<Rightarrow> u32 list \<Rightarrow> nat" where
  "lookup_examined t k ps = min (length ps) (Suc (length (takeWhile (skipped t k) ps)))"

text \<open>An Occupied slot with the key \<open>k\<close>.\<close>

definition holds_key :: "'a OAHashTable \<Rightarrow> string \<Rightarrow> u32 \<Rightarrow> bool" where
  "holds_key t k i =
     (unat i < length (table t) \<and> state_at t i = OCCUPIED \<and> Key (table t ! unat i) = k)"

text \<open>
  The slot array after the removal of slot \<open>i\<close> under the Mark policy: the value is
  cleared when a release callback is configured, and the slot is a tombstone.
\<close>

definition mark_deleted :: "OAHTConfig \<Rightarrow> 'a OAHashTable \<Rightarrow> u32 \<Rightarrow> 'a OAHTSlot list" where
  "mark_deleted cfg t i =
     (table t)[unat i := (table t ! unat i)
        \<lparr>data := (if freeProc cfg then None else data (table t ! unat i)), State := DELETED\<rparr>]"

text \<open>
  How many occupied slots hold the value \<open>v\<close> under a key whose first \<open>MAX_KEYLEN - 1\<close>
  characters are \<open>k\<close>.
\<close>

definition occurrences :: "OAHTConfig \<Rightarrow> 'a OAHTSlot list \<Rightarrow> string \<Rightarrow> 'a option \<Rightarrow> nat" where
  "occurrences cfg slots k v =
     length (filter (\<lambda>s. State s = OCCUPIED \<and> take (MAX_KEYLEN cfg - 1) (Key s) = k \<and> data s = v) slots)"

subsection \<open>Concrete configurations and tables\<close>

text \<open>
  Hash functions of a caller: the code of the first character, and the length of the
  key, each reduced modulo the second argument.
\<close>

definition first_char_hash :: "string \<Rightarrow> u32 \<Rightarrow> u32" where
  "first_char_hash k m = (case k of [] \<Rightarrow> 0 | c # cs \<Rightarrow> of_nat (of_char c) mod m)"

definition length_hash :: "string \<Rightarrow> u32 \<Rightarrow> u32" where
  "length_hash k m = of_nat (length k - 1) mod m"

definition is_prime :: "nat \<Rightarrow> bool" where
  "is_prime n = (2 \<le> n \<and> list_all (\<lambda>d. n mod d \<noteq> 0) [2 ..< n])"

text \<open>
  Modelled from the spec: \<open>GetClosestPrime\<close> is declared in the missing header; the
  spec calls it the nearest prime greater than or equal to its argument. The search
  is bounded by \<open>2 * n + 3\<close>; the tables below stay far from the bound.
\<close>

definition closest_prime :: "u32 \<Rightarrow> u32" where
  "closest_prime w =
     (case List.find is_prime [unat w ..< 2 * unat w + 3] of
        Some p \<Rightarrow> of_nat p
      | None \<Rightarrow> w)"

text \<open>
  A configuration of a caller. The load factor is the double nearest to \<open>mlf\<close>, as a
  literal such as \<open>0.7\<close> denotes it.
\<close>

definition test_config :: "(string \<Rightarrow> u32 \<Rightarrow> u32) option \<Rightarrow> rat \<Rightarrow> OAHTDeletionPolicy \<Rightarrow> OAHTConfig" where
  "test_config sh mlf pol =
     \<lparr>primary_hash_func = first_char_hash, secondary_hash_func = sh, max_load_factor = to_double mlf,
      growth_factor = 2, deletion_policy = pol, freeProc = True, MAX_KEYLEN = 32,
      GetClosestPrime = closest_prime\<rparr>"

definition occupied_slot :: "string \<Rightarrow> 'a \<Rightarrow> 'a OAHTSlot" where
  "occupied_slot k v = \<lparr>Key = k, data = Some v, State = OCCUPIED, slot_probes = 0\<rparr>"

definition mk_table :: "'a OAHTSlot list \<Rightarrow> u32 \<Rightarrow> u32 \<Rightarrow> 'a OAHashTable" where
  "mk_table slots c p =
     \<lparr>table = slots, tableSize = of_nat (length slots), count = c, probes = p,
      expansions = 0, released = []\<rparr>"

definition full_table :: "nat OAHashTable" where
  "full_table = mk_table (map (\<lambda>c. occupied_slot [c] 1) ''bcdefga'') 7 0"


definition empty7 :: "nat OAHashTable" where
  "empty7 = mk_table (replicate 7 init_slot) 0 0"

text \<open>The keys "a", "b", "c", "d" in a table of capacity 7, at their own indices.\<close>

definition four_keys :: "nat OAHashTable" where
  "four_keys =
     mk_table [occupied_slot ''b'' 2, occupied_slot ''c'' 3, occupied_slot ''d'' 4,
               init_slot, init_slot, init_slot, occupied_slot ''a'' 1] 4 4"

definition five_keys :: "nat OAHashTable" where
  "five_keys =
     \<lparr>table = replicate 12 init_slot @
        [occupied_slot ''a'' 1, occupied_slot ''b'' 2, occupied_slot ''c'' 3,
         occupied_slot ''d'' 4, occupied_slot ''e'' 5],
      tableSize = 17, count = 5, probes = 9, expansions = 1, released = []\<rparr>"

definition long_key :: string where
  "long_key = ''abcdefghijklmnopqrstuvwxyz0123456789''"

definition a_once :: "nat OAHashTable" where
  "a_once = mk_table (replicate 6 init_slot @ [occupied_slot ''a'' 1]) 1 1"

definition a_twice :: "nat OAHashTable" where
  "a_twice = mk_table (occupied_slot ''a'' 2 # replicate 5 init_slot @ [occupied_slot ''a'' 1]) 2 3"

definition long_stored :: "nat OAHashTable" where
  "long_stored = mk_table (replicate 6 init_slot @ [occupied_slot (take 31 long_key) 1]) 1 1"

definition a_grown :: "nat OAHashTable" where
  "a_grown =
     \<lparr>table = replicate 12 init_slot @ [occupied_slot ''a'' 1] @ replicate 4 init_slot,
      tableSize = 17, count = 1, probes = 1, expansions = 1, released = []\<rparr>"

definition four_keys_grown :: "nat OAHashTable" where
  "four_keys_grown =
     \<lparr>table = replicate 12 init_slot @
        [occupied_slot ''a'' 1, occupied_slot ''b'' 2, occupied_slot ''c'' 3,
         occupied_slot ''d'' 4, init_slot],
      tableSize = 17, count = 4, probes = 8, expansions = 1, released = []\<rparr>"

text \<open>
  A secondary hash function of a caller that returns its second argument, so that the
  stride is the capacity and the probe sequence of every key is its start index alone.
\<close>

definition capacity_stride :: "string \<Rightarrow> u32 \<Rightarrow> u32" where
  "capacity_stride k m = m"

text \<open>The key "a" in the grown table of capacity 17, after a probe that found slot 12 taken.\<close>

definition a_regrown :: "nat OAHashTable" where
  "a_regrown =
     \<lparr>table = replicate 12 init_slot @ [occupied_slot ''a'' 1] @ replicate 4 init_slot,
      tableSize = 17, count = 1, probes = 3, expansions = 1, released = []\<rparr>"

text \<open>The keys "a" and "b", and then "c", in a table of capacity 7.\<close>

definition two_keys :: "nat OAHashTable" where
  "two_keys =
     mk_table [occupied_slot ''b'' 2, init_slot, init_slot, init_slot, init_slot, init_slot,
               occupied_slot ''a'' 1] 2 2"

definition three_keys :: "nat OAHashTable" where
  "three_keys =
     mk_table [occupied_slot ''b'' 2, occupied_slot ''c'' 3, init_slot, init_slot, init_slot,
               init_slot, occupied_slot ''a'' 1] 3 3"

text \<open>A run of inserts, stopped by the first that does not return.\<close>

fun insert_all :: "nat \<Rightarrow> OAHTConfig \<Rightarrow> 'a OAHashTable \<Rightarrow> (string \<times> 'a) list \<Rightarrow> (unit, 'a) outcome" where
  "insert_all n cfg t [] = Return () t"
| "insert_all n cfg t ((k, v) # kvs) =
     (case insert_ht n cfg t (Some k) (Some v) of
        Return u t' \<Rightarrow> insert_all n cfg t' kvs
      | Throw e t' \<Rightarrow> Throw e t'
      | UndefinedBehaviour \<Rightarrow> UndefinedBehaviour
      | OutOfFuel \<Rightarrow> OutOfFuel)"

text \<open>A tombstone at index 0 on the probe sequence 6, 0, 1, 2 of the key "o".\<close>

definition tomb_table :: "nat OAHashTable" where
  "tomb_table =
     mk_table [\<lparr>Key = ''h'', data = None, State = DELETED, slot_probes = 0\<rparr>, occupied_slot ''i'' 3,
               init_slot, init_slot, init_slot, init_slot, occupied_slot ''a'' 1] 2 7"

definition tomb_reused :: "nat OAHashTable" where
  "tomb_reused =
     mk_table [occupied_slot ''o'' 9, occupied_slot ''i'' 3,
               init_slot, init_slot, init_slot, init_slot, occupied_slot ''a'' 1] 3 11"

text \<open>The key "b" twice, with "cxx" (stride 3) and "d" between the two.\<close>

definition dup_four :: "nat OAHashTable" where
  "dup_four =
     mk_table [occupied_slot ''b'' 1, occupied_slot ''cxx'' 2, occupied_slot ''d'' 3,
               occupied_slot ''b'' 4, init_slot, init_slot, init_slot] 4 7"

definition dup_three :: "nat OAHashTable" where
  "dup_three =
     \<lparr>table = [occupied_slot ''b'' 1, \<lparr>Key = ''cxx'', data = None, State = UNOCCUPIED, slot_probes = 0\<rparr>,
               occupied_slot ''d'' 3, occupied_slot ''b'' 4, init_slot, init_slot, init_slot],
      tableSize = 7, count = 3, probes = 8, expansions = 0, released = [2]\<rparr>"

definition dup_two :: "nat OAHashTable" where
  "dup_two =
     \<lparr>table = [\<lparr>Key = ''b'', data = None, State = UNOCCUPIED, slot_probes = 0\<rparr>,
               \<lparr>Key = ''cxx'', data = None, State = UNOCCUPIED, slot_probes = 0\<rparr>,
               occupied_slot ''d'' 3, occupied_slot ''b'' 4, init_slot, init_slot, init_slot],
      tableSize = 7, count = 2, probes = 9, expansions = 0, released = [2, 1]\<rparr>"

text \<open>The table \<open>a_twice\<close> after the removal of the first "a" under the Mark policy.\<close>

definition a_marked :: "nat OAHashTable" where
  "a_marked =
     \<lparr>table = occupied_slot ''a'' 2 # replicate 5 init_slot @
               [\<lparr>Key = ''a'', data = None, State = DELETED, slot_probes = 0\<rparr>],
      tableSize = 7, count = 1, probes = 4, expansions = 0, released = [1]\<rparr>"

text \<open>The table \<open>a_once\<close> after \<open>remove("a")\<close> under the Pack policy.\<close>

definition pack_damage :: "nat OAHashTable" where
  "pack_damage =
     \<lparr>table = replicate 4 \<lparr>Key = [], data = None, State = OCCUPIED, slot_probes = 0\<rparr> @
               [init_slot, init_slot, \<lparr>Key = ''a'', data = None, State = UNOCCUPIED, slot_probes = 0\<rparr>],
      tableSize = 7, count = 0, probes = 12, expansions = 0, released = [1]\<rparr>"
section \<open>Auxiliary lemmas\<close>

subsection \<open>Rounding to double\<close>

lemma bit_length_bounds:
  "0 < n \<Longrightarrow> 2 ^ (bit_length n - 1) \<le> n \<and> n < 2 ^ bit_length n"
proof (induction n rule: bit_length.induct)
  case (1 n)
  show ?case
  proof (cases "n = 1")
    case True
    have "bit_length 1 = Suc 0"
      by (simp add: bit_length.simps[of 1] bit_length.simps[of 0])
    with True show ?thesis by simp
  next
    case False
    with "1.prems" have h: "0 < n div 2" by simp
    from "1.prems" have nle: "\<not> n \<le> 0" by simp
    define b where "b = bit_length (n div 2)"
    from "1.IH"[OF nle h] have ih: "2 ^ (b - 1) \<le> n div 2" "n div 2 < 2 ^ b"
      by (simp_all add: b_def)
    have bl: "bit_length n = Suc b"
      using nle by (simp add: bit_length.simps[of n] b_def)
    have bpos: "0 < b"
    proof (rule ccontr)
      assume "\<not> 0 < b"
      with ih(2) h show False by simp
    qed
    then have pw: "(2::int) ^ b = 2 * 2 ^ (b - 1)"
      by (cases b) simp_all
    from ih(1) pw have lo: "2 ^ b \<le> n" by linarith
    from ih(2) have "n < 2 * 2 ^ b" by linarith
    with lo bl show ?thesis by simp
  qed
qed

lemma ilog2_bounds:
  assumes "0 < x"
  shows "2 powi (ilog2 x) \<le> x \<and> x < 2 powi (ilog2 x + 1)"
proof -
  obtain p q where pq: "quotient_of x = (p, q)" by (cases "quotient_of x")
  then have q: "0 < q" and x: "x = of_int p / of_int q"
    by (simp_all add: quotient_of_denom_pos quotient_of_div)
  from assms q x have p: "0 < p" by (simp add: zero_less_divide_iff)
  define bp where "bp = bit_length p"
  define bq where "bq = bit_length q"
  define k where "k = int bp - int bq"
  from bit_length_bounds[OF p] have pb: "2 ^ (bp - 1) \<le> p" "p < 2 ^ bp" by (simp_all add: bp_def)
  from bit_length_bounds[OF q] have qb: "2 ^ (bq - 1) \<le> q" "q < 2 ^ bq" by (simp_all add: bq_def)
  have bp0: "0 < bp" using pb(2) p by (cases bp) simp_all
  have bq0: "0 < bq" using qb(2) q by (cases bq) simp_all
  have P1: "(of_int p :: rat) < 2 ^ bp"
    using pb(2) by (metis of_int_less_iff of_int_numeral of_int_power)
  have P2: "(2::rat) ^ (bp - 1) \<le> of_int p"
    using pb(1) by (metis of_int_le_iff of_int_numeral of_int_power)
  have Q1: "(of_int q :: rat) < 2 ^ bq"
    using qb(2) by (metis of_int_less_iff of_int_numeral of_int_power)
  have Q2: "(2::rat) ^ (bq - 1) \<le> of_int q"
    using qb(1) by (metis of_int_le_iff of_int_numeral of_int_power)
  have qr: "(0::rat) < of_int q" using q by simp
  have up: "x < 2 powi (k + 1)"
  proof -
    have "x * 2 ^ (bq - 1) \<le> x * of_int q"
      using Q2 assms by (intro mult_left_mono) simp_all
    also have "\<dots> = of_int p" using x qr by simp
    also have "\<dots> < 2 ^ bp" by (rule P1)
    finally have "x < 2 ^ bp / 2 ^ (bq - 1)" by (simp add: pos_less_divide_eq)
    also have "\<dots> = 2 powi (int bp - int (bq - 1))"
      by (simp add: power_int_diff)
    also have "int bp - int (bq - 1) = k + 1" using bq0 by (simp add: k_def)
    finally show ?thesis .
  qed
  have lo: "2 powi (k - 1) \<le> x"
  proof -
    have "k - 1 = int (bp - 1) - int bq" using bp0 by (simp add: k_def)
    then have "2 powi (k - 1) = (2::rat) powi (int (bp - 1) - int bq)" by (rule arg_cong)
    also have "\<dots> = 2 ^ (bp - 1) / 2 ^ bq" by (simp add: power_int_diff)
    also have "\<dots> \<le> of_int p / 2 ^ bq" using P2 by (simp add: divide_right_mono)
    also have "\<dots> \<le> of_int p / of_int q"
      using Q1 qr p by (intro divide_left_mono) simp_all
    finally show ?thesis using x by simp
  qed
  have il: "ilog2 x = (if 2 powi k \<le> x then k else k - 1)"
    by (simp add: ilog2_def pq Let_def k_def bp_def bq_def)
  show ?thesis
  proof (cases "2 powi k \<le> x")
    case True
    with il up show ?thesis by simp
  next
    case False
    with il lo show ?thesis by simp
  qed
qed

lemma ilog2_mono:
  assumes "0 < x" "x \<le> y"
  shows "ilog2 x \<le> ilog2 y"
proof -
  from assms have y: "0 < y" by simp
  have "(2::rat) powi (ilog2 x) < 2 powi (ilog2 y + 1)"
    using ilog2_bounds[OF assms(1)] ilog2_bounds[OF y] assms(2) by linarith
  then have "ilog2 x < ilog2 y + 1"
    by (metis linorder_not_less one_le_numeral power_int_increasing)
  then show ?thesis by simp
qed

lemma round_even_floor: "\<lfloor>x\<rfloor> \<le> round_even x \<and> round_even x \<le> \<lfloor>x\<rfloor> + 1"
  by (simp add: round_even_def Let_def)

lemma round_even_of_int: "round_even (of_int n) = n"
  by (simp add: round_even_def Let_def)

lemma round_even_mono:
  assumes "x \<le> y"
  shows "round_even x \<le> round_even y"
proof (cases "\<lfloor>x\<rfloor> = \<lfloor>y\<rfloor>")
  case True
  with assms show ?thesis by (auto simp: round_even_def Let_def)
next
  case False
  with assms have "\<lfloor>x\<rfloor> < \<lfloor>y\<rfloor>" using floor_mono[OF assms] by simp
  with round_even_floor[of x] round_even_floor[of y] show ?thesis by linarith
qed

lemma round_pos_mono:
  assumes "0 < x" "x \<le> y"
  shows "round_pos x \<le> round_pos y"
proof -
  from assms have y: "0 < y" by simp
  define ex where "ex = max (ilog2 x - 52) (- 1074)"
  define ey where "ey = max (ilog2 y - 52) (- 1074)"
  have rx: "round_pos x = of_int (round_even (x / 2 powi ex)) * 2 powi ex"
    by (simp add: round_pos_def Let_def ex_def)
  have ry: "round_pos y = of_int (round_even (y / 2 powi ey)) * 2 powi ey"
    by (simp add: round_pos_def Let_def ey_def)
  have le: "ex \<le> ey" using ilog2_mono[OF assms] by (simp add: ex_def ey_def)
  have px: "(0::rat) < 2 powi ex" and py: "(0::rat) < 2 powi ey" by simp_all
  show ?thesis
  proof (cases "ex = ey")
    case True
    have "x / 2 powi ey \<le> y / 2 powi ey" using assms(2) py by (simp add: divide_right_mono)
    from round_even_mono[OF this] have "(of_int (round_even (x / 2 powi ey)) :: rat) \<le> of_int (round_even (y / 2 powi ey))"
      by simp
    then show ?thesis using py unfolding rx ry True by (intro mult_right_mono) simp_all
  next
    case False
    with le have lt: "ex < ey" by simp
    have "ilog2 x + 1 \<le> ex + 53" by (simp add: ex_def)
    then have "(2::rat) powi (ilog2 x + 1) \<le> 2 powi (ex + 53)"
      by (intro power_int_increasing) simp_all
    with ilog2_bounds[OF assms(1)] have "x \<le> 2 powi (ex + 53)" by linarith
    also have "\<dots> = 2 powi ex * 2 ^ 53" by (simp add: power_int_add)
    finally have "x / 2 powi ex \<le> of_int (2 ^ 53)" using px by (simp add: pos_divide_le_eq mult.commute)
    from round_even_mono[OF this] have "round_even (x / 2 powi ex) \<le> 2 ^ 53"
      by (simp only: round_even_of_int)
    then have "(of_int (round_even (x / 2 powi ex)) :: rat) \<le> of_int (2 ^ 53)"
      by (simp only: of_int_le_iff)
    then have "round_pos x \<le> of_int (2 ^ 53) * 2 powi ex"
      unfolding rx using px by (intro mult_right_mono) simp_all
    also have "\<dots> = 2 powi (ex + 53)" by (simp add: power_int_add)
    also have "\<dots> \<le> 2 powi (ey + 52)" using lt by (intro power_int_increasing) simp_all
    finally have A: "round_pos x \<le> 2 powi (ey + 52)" .
    from lt have "ey = ilog2 y - 52" by (simp add: ex_def ey_def split: if_splits) linarith?
    then have "(2::rat) powi (ey + 52) = 2 powi (ilog2 y)" by simp
    with ilog2_bounds[OF y] have yl: "2 powi (ey + 52) \<le> y" by simp
    have "(2::rat) powi (ey + 52) = 2 powi ey * 2 ^ 52" by (simp add: power_int_add)
    with yl have "of_int (2 ^ 52) \<le> y / 2 powi ey" using py by (simp add: pos_le_divide_eq mult.commute)
    from round_even_mono[OF this] have "2 ^ 52 \<le> round_even (y / 2 powi ey)"
      by (simp only: round_even_of_int)
    then have "(of_int (2 ^ 52) :: rat) \<le> of_int (round_even (y / 2 powi ey))"
      by (simp only: of_int_le_iff)
    then have "of_int (2 ^ 52) * 2 powi ey \<le> round_pos y"
      unfolding ry using py by (intro mult_right_mono) simp_all
    moreover have "of_int (2 ^ 52) * 2 powi ey = (2::rat) powi (ey + 52)" by (simp add: power_int_add)
    ultimately show ?thesis using A by linarith
  qed
qed

lemma round_pos_nonneg:
  assumes "0 < x"
  shows "0 \<le> round_pos x"
proof -
  define e where "e = max (ilog2 x - 52) (- 1074)"
  have "of_int 0 \<le> x / 2 powi e" using assms by simp
  from round_even_mono[OF this] have "0 \<le> round_even (x / 2 powi e)"
    by (simp only: round_even_of_int)
  then show ?thesis by (simp add: round_pos_def Let_def e_def)
qed

lemma to_double_nonneg: "0 \<le> x \<Longrightarrow> 0 \<le> to_double x"
  by (simp add: to_double_def round_pos_nonneg)

lemma to_double_mono:
  assumes "0 \<le> x" "x \<le> y"
  shows "to_double x \<le> to_double y"
proof (cases "x = 0")
  case True
  with assms to_double_nonneg[of y] show ?thesis by (simp add: to_double_def)
next
  case False
  with assms have "0 < x" "0 < y" by simp_all
  with round_pos_mono[OF \<open>0 < x\<close> assms(2)] show ?thesis by (simp add: to_double_def)
qed

lemma to_double_one: "to_double 1 = 1"
  by code_simp

lemma to_double_le_one: "0 \<le> x \<Longrightarrow> x \<le> 1 \<Longrightarrow> to_double x \<le> 1"
  using to_double_mono[of x 1] by (simp add: to_double_one)

lemma to_double_above_one:
  assumes "1 + 1 / 2 ^ 32 \<le> x"
  shows "1 < to_double x"
proof -
  have e: "to_double (1 + 1 / 2 ^ 32) = 1 + 1 / 2 ^ 32" by code_simp
  have "to_double (1 + 1 / 2 ^ 32) \<le> to_double x"
    by (rule to_double_mono[OF _ assms]) simp
  then have "1 + 1 / 2 ^ 32 \<le> to_double x" by (simp only: e)
  then show ?thesis by simp
qed

lemma to_double_ratio_mono:
  fixes a a' b :: nat
  assumes "a \<le> a'"
  shows "to_double (of_nat a / of_nat b) \<le> to_double (of_nat a' / of_nat b)"
proof (rule to_double_mono)
  show "(0::rat) \<le> of_nat a / of_nat b" by simp
  from assms have "(of_nat a :: rat) \<le> of_nat a'" by simp
  then show "(of_nat a :: rat) / of_nat b \<le> of_nat a' / of_nat b"
    by (rule divide_right_mono) simp
qed

lemma to_double_ratio_le_one:
  fixes a b :: nat
  assumes "a \<le> b"
  shows "to_double (of_nat a / of_nat b) \<le> 1"
proof (rule to_double_le_one)
  show "(0::rat) \<le> of_nat a / of_nat b" by simp
  show "(of_nat a :: rat) / of_nat b \<le> 1"
  proof (cases "b = 0")
    case True
    then show ?thesis by simp
  next
    case False
    with assms show ?thesis by (simp add: divide_le_eq_1)
  qed
qed

lemma to_double_ratio_nonneg:
  fixes a b :: nat
  shows "0 \<le> to_double (of_nat a / of_nat b)"
  by (rule to_double_nonneg) simp

subsection \<open>Probing and growth\<close>

lemma store_slot_probes:
  "store_slot cfg (t\<lparr>probes := q\<rparr>) i k d = (store_slot cfg t i k d)\<lparr>probes := q\<rparr>"
  by (simp add: store_slot_def)

lemma lpi_loop_Return:
  assumes "lpi_loop n cfg t k d orig stride idx pc del = Return u t'"
  shows "\<exists>p q. t' = (store_slot cfg t p k d)\<lparr>probes := q\<rparr> \<and>
           (case del of Some di \<Rightarrow> p = di
            | None \<Rightarrow> unat p < length (table t) \<and> State (table t ! unat p) \<noteq> OCCUPIED)"
  using assms
proof (induction n arbitrary: idx pc del)
  case 0
  then show ?case by simp
next
  case (Suc n)
  from Suc.prems obtain s where s: "slot_at t idx = Some s"
    by (auto split: option.splits)
  then have rng: "unat idx < length (table t)" "table t ! unat idx = s"
    by (auto simp: slot_at_def split: if_splits)
  show ?case
  proof (cases "State s = UNOCCUPIED")
    case True
    with Suc.prems s rng show ?thesis
      by (cases del) (auto simp: store_slot_probes)
  next
    case False
    let ?del' = "if State s = DELETED \<and> del = None then Some idx else del"
    let ?idx' = "(idx + stride) mod tableSize t"
    from Suc.prems s False have m: "tableSize t \<noteq> 0"
      by (auto simp: Let_def split: if_splits)
    show ?thesis
    proof (cases "?idx' \<noteq> orig")
      case True
      with Suc.prems s False m
      have "lpi_loop n cfg t k d orig stride ?idx' (pc + 1) ?del' = Return u t'"
        by (simp add: Let_def)
      from Suc.IH[OF this] obtain p q where
        pq: "t' = (store_slot cfg t p k d)\<lparr>probes := q\<rparr>"
          "(case ?del' of Some di \<Rightarrow> p = di
            | None \<Rightarrow> unat p < length (table t) \<and> State (table t ! unat p) \<noteq> OCCUPIED)"
        by blast
      show ?thesis
      proof (cases del)
        case None
        with pq rng False show ?thesis
          by (cases "State s = DELETED") (rule exI[of _ p], rule exI[of _ q], simp)+
      next
        case (Some di)
        with pq show ?thesis by auto
      qed
    next
      case False
      with Suc.prems s \<open>State s \<noteq> UNOCCUPIED\<close> m rng show ?thesis
        by (cases del; cases "State s = DELETED")
           (auto simp: Let_def store_slot_probes split: option.splits if_splits)
    qed
  qed
qed

lemma lpi_loop_Throw:
  assumes "lpi_loop n cfg t k d orig stride idx pc del = Throw e t'"
  shows "e = (E_NO_MEMORY, ''Failed to insert item.'') \<and> (\<exists>q. t' = t\<lparr>probes := q\<rparr>)"
  using assms
proof (induction n arbitrary: idx pc del)
  case 0
  then show ?case by simp
next
  case (Suc n)
  then show ?case
    by (auto simp: Let_def split: option.splits if_splits)
qed

lemma slot_at_store:
  "slot_at ((store_slot cfg t p k d)\<lparr>probes := q\<rparr>) i =
     (if unat i = unat p \<and> unat p < length (table t)
      then Some ((table t ! unat p)\<lparr>Key := take (MAX_KEYLEN cfg - 1) k, data := d, State := OCCUPIED\<rparr>)
      else slot_at t i)"
  by (auto simp: slot_at_def store_slot_def)

lemma tableSize_store [simp]: "tableSize ((store_slot cfg t p k d)\<lparr>probes := q\<rparr>) = tableSize t"
  by (simp add: store_slot_def)

lemma lpi_then_find:
  assumes "lpi_loop n cfg t k d orig stride idx pc None = Return u t'"
    and "key_absent t sk" and "sk = take (MAX_KEYLEN cfg - 1) k"
  shows "\<exists>j pr' s'. find_loop n t' sk orig stride idx pr = FindEnd True j pr' \<and>
           slot_at t' j = Some s' \<and> data s' = d"
  using assms(1)
proof (induction n arbitrary: idx pc pr)
  case 0
  then show ?case by simp
next
  case (Suc n)
  from Suc.prems obtain s where s: "slot_at t idx = Some s"
    by (auto split: option.splits)
  then have rng: "unat idx < length (table t)" "table t ! unat idx = s"
    by (auto simp: slot_at_def split: if_splits)
  have stored: "\<exists>j pr' s'. find_loop (Suc n) t' sk orig stride idx pr = FindEnd True j pr' \<and>
           slot_at t' j = Some s' \<and> data s' = d"
    if "t' = (store_slot cfg t idx k d)\<lparr>probes := q\<rparr>" for q
    using that rng assms(3) by (simp add: slot_at_store)
  consider (empty) "State s = UNOCCUPIED" | (tomb) "State s = DELETED" | (occ) "State s = OCCUPIED"
    by (cases "State s") auto
  then show ?case
  proof cases
    case empty
    with Suc.prems s have "t' = (store_slot cfg t idx k d)\<lparr>probes := probes t + (pc + 1)\<rparr>"
      by simp
    then show ?thesis by (rule stored)
  next
    case tomb
    with Suc.prems s have m: "tableSize t \<noteq> 0"
      by (auto simp: Let_def split: if_splits)
    show ?thesis
    proof (cases "(idx + stride) mod tableSize t \<noteq> orig")
      case True
      with Suc.prems s tomb m
      have "lpi_loop n cfg t k d orig stride ((idx + stride) mod tableSize t) (pc + 1) (Some idx) = Return u t'"
        by (simp add: Let_def)
      from lpi_loop_Return[OF this] obtain q where "t' = (store_slot cfg t idx k d)\<lparr>probes := q\<rparr>"
        by auto
      then show ?thesis by (rule stored)
    next
      case False
      with Suc.prems s tomb m
      have "t' = (store_slot cfg t idx k d)\<lparr>probes := probes t + (pc + 1)\<rparr>"
        by (simp add: Let_def store_slot_probes)
      then show ?thesis by (rule stored)
    qed
  next
    case occ
    with Suc.prems s have m: "tableSize t \<noteq> 0"
      by (auto simp: Let_def split: if_splits)
    from Suc.prems s occ m have nx: "(idx + stride) mod tableSize t \<noteq> orig"
      by (auto simp: Let_def split: if_splits)
    with Suc.prems s occ m
    have rec: "lpi_loop n cfg t k d orig stride ((idx + stride) mod tableSize t) (pc + 1) None = Return u t'"
      by (simp add: Let_def)
    from lpi_loop_Return[OF rec] obtain p q where
      t': "t' = (store_slot cfg t p k d)\<lparr>probes := q\<rparr>"
      and p: "unat p < length (table t)" "State (table t ! unat p) \<noteq> OCCUPIED"
      by auto
    from p occ rng have "unat idx \<noteq> unat p" by auto
    with t' s have s': "slot_at t' idx = Some s" "tableSize t' = tableSize t"
      by (simp_all add: slot_at_store)
    from rng occ assms(2) have "Key s \<noteq> sk"
      by (auto simp: key_absent_def list_all_iff)
    with s' occ m nx have "find_loop (Suc n) t' sk orig stride idx pr =
        find_loop n t' sk orig stride ((idx + stride) mod tableSize t) (pr + 1)"
      by (simp add: Let_def)
    with Suc.IH[OF rec, of "pr + 1"] show ?thesis by simp
  qed
qed

lemma linearProbeInsert_then_find:
  assumes "linearProbeInsert n cfg t k d = Return u t'"
    and "key_absent t sk" and "sk = take (MAX_KEYLEN cfg - 1) k"
    and "primary_hash_func cfg sk (tableSize t) = primary_hash_func cfg k (tableSize t)"
    and "stride_of cfg t sk = stride_of cfg t k"
  shows "\<exists>p. find_ht n cfg t' (Some sk) = Return d (t'\<lparr>probes := p\<rparr>)"
proof -
  let ?orig = "primary_hash_func cfg k (tableSize t)"
  from assms(1) have l: "lpi_loop n cfg t k d ?orig (stride_of cfg t k) ?orig 0 None = Return u t'"
    by (simp add: linearProbeInsert_def Let_def)
  from lpi_loop_Return[OF l] have sz1: "tableSize t' = tableSize t"
    by auto
  then have sz: "tableSize t' = tableSize t" "stride_of cfg t' sk = stride_of cfg t sk"
    by (auto simp: stride_of_def split: option.splits)
  from lpi_then_find[OF l assms(2,3), of "probes t'"] obtain j pr' s' where
    "find_loop n t' sk ?orig (stride_of cfg t k) ?orig (probes t') = FindEnd True j pr'"
    "slot_at t' j = Some s'" "data s' = d"
    by blast
  with sz assms(4,5) show ?thesis by (auto simp: Let_def)
qed

lemma ends_with_Return [simp]: "ends_with (Return u t') P = P t'"
  and ends_with_Throw [simp]: "ends_with (Throw e t') P = P t'"
  and ends_with_UB [simp]: "ends_with UndefinedBehaviour P = True"
  and ends_with_OOF [simp]: "ends_with OutOfFuel P = True"
  by (simp_all add: ends_with_def)

lemma ends_with_mono: "ends_with r P \<Longrightarrow> (\<And>t'. P t' \<Longrightarrow> Q t') \<Longrightarrow> ends_with r Q"
  by (cases r) auto

lemma lpi_ends_with:
  assumes "\<And>p q. unat p < length (table t) \<Longrightarrow> P ((store_slot cfg t p k d)\<lparr>probes := q\<rparr>)"
    and "\<And>q. P (t\<lparr>probes := q\<rparr>)"
  shows "ends_with (linearProbeInsert n cfg t k d) P"
proof (cases "linearProbeInsert n cfg t k d")
  case (Return u t')
  then have "lpi_loop n cfg t k d (primary_hash_func cfg k (tableSize t)) (stride_of cfg t k)
      (primary_hash_func cfg k (tableSize t)) 0 None = Return u t'"
    by (simp add: linearProbeInsert_def Let_def)
  from lpi_loop_Return[OF this] Return assms(1) show ?thesis by auto
next
  case (Throw e t')
  then have "lpi_loop n cfg t k d (primary_hash_func cfg k (tableSize t)) (stride_of cfg t k)
      (primary_hash_func cfg k (tableSize t)) 0 None = Throw e t'"
    by (simp add: linearProbeInsert_def Let_def)
  from lpi_loop_Throw[OF this] Throw assms(2) show ?thesis by auto
qed simp_all

lemma insert_rehash_rel:
  assumes refl: "\<And>t. R t t" and trans: "\<And>a b c. R a b \<Longrightarrow> R b c \<Longrightarrow> R a c"
    and alloc: "\<And>t ns. new_size cfg t = Some ns \<Longrightarrow> R t (alloc_table cfg t ns)"
    and lpi: "\<And>n t k d. ends_with (linearProbeInsert n cfg t k d) (R t)"
  shows "ends_with (insert_ht n cfg t key d) (R t)"
    and "ends_with (rehash_loop n cfg old is t) (R t)"
  using assms
proof (induction n cfg t key d and n cfg old "is" t rule: insert_ht_rehash_loop.induct)
  case (1 n cfg t d)
  then show ?case by simp
next
  case (2 cfg t k d)
  then show ?case by simp
next
  case (3 n cfg t k d)
  show ?case
  proof (cases "CheckResizeRequired cfg t")
    case False
    then show ?thesis using "3.prems"(4)[of "Suc n" t k d] by simp
  next
    case True
    show ?thesis
    proof (cases "new_size cfg t")
      case None
      with True show ?thesis by simp
    next
      case (Some ns)
      have a: "R t (alloc_table cfg t ns)" by (rule "3.prems"(3)[OF Some])
      have ih: "ends_with (rehash_loop n cfg (table t) [0..<unat (tableSize t)] (alloc_table cfg t ns))
                  (R (alloc_table cfg t ns))"
        by (rule "3.IH"[OF True Some "3.prems"])
      show ?thesis
      proof (cases "rehash_loop n cfg (table t) [0..<unat (tableSize t)] (alloc_table cfg t ns)")
        case (Return u tg)
        with ih a have "R t tg" by (auto intro: "3.prems"(2))
        moreover have "ends_with (linearProbeInsert (Suc n) cfg tg k d) (R tg)"
          by (rule "3.prems"(4))
        ultimately have "ends_with (linearProbeInsert (Suc n) cfg tg k d) (R t)"
          by (auto elim!: ends_with_mono intro: "3.prems"(2))
        with True Some Return show ?thesis by simp
      next
        case (Throw e tg)
        with ih a have "R t tg" by (auto intro: "3.prems"(2))
        with True Some Throw show ?thesis by simp
      qed (use True Some in simp_all)
    qed
  qed
next
  case (4 n cfg oldTable t)
  then show ?case by simp
next
  case (5 n cfg oldTable i "is" t)
  show ?case
  proof (cases "i < length oldTable")
    case False
    then show ?thesis by simp
  next
    case True
    show ?thesis
    proof (cases "State (oldTable ! i) = OCCUPIED")
      case False
      with True "5.IH"(3)[OF True False "5.prems"] show ?thesis by simp
    next
      case occ: True
      have ih1: "ends_with (insert_ht n cfg t (Some (Key (oldTable ! i))) (data (oldTable ! i))) (R t)"
        by (rule "5.IH"(1)[OF True occ "5.prems"])
      show ?thesis
      proof (cases "insert_ht n cfg t (Some (Key (oldTable ! i))) (data (oldTable ! i))")
        case (Return u t1)
        with ih1 have r1: "R t t1" by simp
        have "ends_with (rehash_loop n cfg oldTable is t1) (R t1)"
          by (rule "5.IH"(2)[OF True occ Return "5.prems"])
        then have "ends_with (rehash_loop n cfg oldTable is t1) (R t)"
          using r1 by (auto elim!: ends_with_mono intro: "5.prems"(2))
        with True occ Return show ?thesis by simp
      next
        case (Throw e t1)
        with ih1 True occ show ?thesis by simp
      qed (use True occ in simp_all)
    qed
  qed
qed

lemma linearProbeInsert_Throw:
  "linearProbeInsert n cfg t k d = Throw e t' \<Longrightarrow>
   e = (E_NO_MEMORY, ''Failed to insert item.'') \<and> (\<exists>q. t' = t\<lparr>probes := q\<rparr>)"
  unfolding linearProbeInsert_def Let_def by (rule lpi_loop_Throw)

lemma linearProbeInsert_Return:
  "linearProbeInsert n cfg t k d = Return u t' \<Longrightarrow>
   \<exists>p q. t' = (store_slot cfg t p k d)\<lparr>probes := q\<rparr> \<and>
     unat p < length (table t) \<and> State (table t ! unat p) \<noteq> OCCUPIED"
  unfolding linearProbeInsert_def Let_def by (drule lpi_loop_Return) simp

lemma insert_rehash_Throw_code:
  "insert_ht n cfg t key d = Throw e t' \<Longrightarrow> fst e = E_NO_MEMORY"
  "rehash_loop n cfg old is t = Throw e t' \<Longrightarrow> fst e = E_NO_MEMORY"
proof (induction n cfg t key d and n cfg old "is" t arbitrary: t' and t' rule: insert_ht_rehash_loop.induct)
  case (3 n cfg t k d)
  have lpi: "fst e = E_NO_MEMORY" if "linearProbeInsert (Suc n) cfg tp k d = Throw e t'" for tp
    using linearProbeInsert_Throw[OF that] by simp
  from "3.prems" "3.IH" lpi show ?case
    by (auto split: if_splits option.splits outcome.splits)
next
  case (5 n cfg oldTable i "is" t)
  from "5.prems" "5.IH" show ?case
    by (auto split: if_splits option.splits outcome.splits)
qed auto

lemma pack_first_state:
  "pack_first n t stride index cur = Return x t' \<Longrightarrow> t' = t"
  by (induction n arbitrary: cur) (auto simp: Let_def split: if_splits option.splits)

lemma pack_first_no_Throw:
  "pack_first n t stride index cur \<noteq> Throw e t'"
  by (induction n arbitrary: cur) (auto simp: Let_def split: if_splits option.splits)

lemma pack_second_Throw_code:
  "pack_second n cfg t stride cur stop = Throw e t' \<Longrightarrow> fst e = E_NO_MEMORY"
proof (induction n arbitrary: t cur)
  case 0
  then show ?case by simp
next
  case (Suc n)
  then show ?case
    by (auto simp: Let_def insert_rehash_Throw_code(1) split: if_splits option.splits outcome.splits)
qed

lemma packTable_Throw_code:
  "packTable n cfg t index = Throw e t' \<Longrightarrow> fst e = E_NO_MEMORY"
  by (auto simp: packTable_def pack_first_no_Throw pack_second_Throw_code
      split: if_splits option.splits outcome.splits)

lemma remove_loop_Throw_code:
  "remove_loop n cfg t k orig stride idx pc = Throw e t' \<Longrightarrow> fst e = E_NO_MEMORY"
proof (induction n arbitrary: idx pc)
  case 0
  then show ?case by simp
next
  case (Suc n)
  then show ?case
    by (auto simp: Let_def packTable_Throw_code
        split: if_splits option.splits outcome.splits OAHTDeletionPolicy.splits)
qed

lemma remove_loop_not_found:
  "remove_loop n cfg t k orig stride idx pc = Return (False, pc') t' \<Longrightarrow> t' = t"
proof (induction n arbitrary: idx pc)
  case 0
  then show ?case by simp
next
  case (Suc n)
  then show ?case
    by (auto simp: Let_def split: if_splits option.splits outcome.splits OAHTDeletionPolicy.splits)
qed

lemma insert_Suc_probed:
  "insert_ht (Suc n) cfg t (Some k) d = Return u t' \<Longrightarrow>
   \<exists>tp. probed_table n cfg t = Some tp \<and> linearProbeInsert (Suc n) cfg tp k d = Return u t'"
  by (auto simp: probed_table_def resizeTable_def split: if_splits option.splits outcome.splits)

lemma probed_table_insert:
  "probed_table n cfg t = Some tp \<Longrightarrow>
   insert_ht (Suc n) cfg t (Some k) d = linearProbeInsert (Suc n) cfg tp k d"
  by (auto simp: probed_table_def resizeTable_def split: if_splits option.splits outcome.splits)

lemma keys_fit_probes [simp]: "keys_fit cfg (t\<lparr>probes := q\<rparr>) = keys_fit cfg t"
  by (simp add: keys_fit_def)

lemma key_absent_probes [simp]: "key_absent (t\<lparr>probes := q\<rparr>) sk = key_absent t sk"
  by (simp add: key_absent_def)

lemma keys_fit_store:
  "keys_fit cfg t \<Longrightarrow> keys_fit cfg (store_slot cfg t p k d)"
  by (auto simp: keys_fit_def store_slot_def list_all_iff dest!: subsetD[OF set_update_subset_insert])

lemma key_absent_store:
  "key_absent t sk \<Longrightarrow> take (MAX_KEYLEN cfg - 1) k \<noteq> sk \<Longrightarrow>
   key_absent (store_slot cfg t p k d) sk"
  by (auto simp: key_absent_def store_slot_def list_all_iff dest!: subsetD[OF set_update_subset_insert])

lemma keys_fit_alloc: "keys_fit cfg (alloc_table cfg t ns)"
  by (simp add: keys_fit_def alloc_table_def Let_def list_all_iff init_slot_def)

lemma key_absent_alloc: "key_absent (alloc_table cfg t ns) sk"
  by (simp add: key_absent_def alloc_table_def Let_def list_all_iff init_slot_def)

lemma insert_keys_fit:
  "ends_with (insert_ht n cfg t key d) (\<lambda>t'. keys_fit cfg t \<longrightarrow> keys_fit cfg t')"
  by (rule insert_rehash_rel(1)[where R = "\<lambda>a b. keys_fit cfg a \<longrightarrow> keys_fit cfg b"])
     (auto simp: keys_fit_alloc keys_fit_store intro!: lpi_ends_with)

lemma resizeTable_keys_fit:
  "resizeTable n cfg t ns = Return u t' \<Longrightarrow> keys_fit cfg t'"
proof -
  have "ends_with (rehash_loop n cfg (table t) [0 ..< unat (tableSize t)] (alloc_table cfg t ns))
          (\<lambda>t'. keys_fit cfg (alloc_table cfg t ns) \<longrightarrow> keys_fit cfg t')"
    by (rule insert_rehash_rel(2)[where R = "\<lambda>a b. keys_fit cfg a \<longrightarrow> keys_fit cfg b"])
       (auto simp: keys_fit_alloc keys_fit_store intro!: lpi_ends_with)
  then show "resizeTable n cfg t ns = Return u t' \<Longrightarrow> keys_fit cfg t'"
    by (simp add: resizeTable_def keys_fit_alloc)
qed

lemma insert_rehash_key_absent:
  "insert_ht n cfg t key d = Return u t' \<Longrightarrow> key_absent t sk \<Longrightarrow> keys_fit cfg t \<Longrightarrow>
     (\<forall>K. key = Some K \<longrightarrow> take (MAX_KEYLEN cfg - 1) K \<noteq> sk) \<Longrightarrow> key_absent t' sk"
  "rehash_loop n cfg old is t = Return u t' \<Longrightarrow> key_absent t sk \<Longrightarrow> keys_fit cfg t \<Longrightarrow>
     (\<forall>i\<in>set is. i < length old \<longrightarrow> State (old ! i) = OCCUPIED \<longrightarrow>
        take (MAX_KEYLEN cfg - 1) (Key (old ! i)) \<noteq> sk) \<Longrightarrow> key_absent t' sk"
proof (induction n cfg t key d and n cfg old "is" t arbitrary: t' u and t' u rule: insert_ht_rehash_loop.induct)
  case (3 n cfg t k d)
  from insert_Suc_probed[OF "3.prems"(1)] obtain tp where
    tp: "probed_table n cfg t = Some tp" and l: "linearProbeInsert (Suc n) cfg tp k d = Return u t'"
    by blast
  have "key_absent tp sk"
  proof (cases "CheckResizeRequired cfg t")
    case False
    with tp "3.prems"(2) show ?thesis by (simp add: probed_table_def)
  next
    case True
    with tp obtain ns where ns: "new_size cfg t = Some ns"
      and r: "rehash_loop n cfg (table t) [0 ..< unat (tableSize t)] (alloc_table cfg t ns) = Return () tp"
      by (auto simp: probed_table_def resizeTable_def split: option.splits outcome.splits)
    have old: "\<forall>i\<in>set [0 ..< unat (tableSize t)]. i < length (table t) \<longrightarrow>
        State (table t ! i) = OCCUPIED \<longrightarrow> take (MAX_KEYLEN cfg - 1) (Key (table t ! i)) \<noteq> sk"
      using "3.prems"(2,3) by (auto simp: key_absent_def keys_fit_def list_all_iff)
    show ?thesis
      by (rule "3.IH"[OF True ns r key_absent_alloc keys_fit_alloc old])
  qed
  then have "key_absent (store_slot cfg tp p k d) sk" for p
    using "3.prems"(4) by (intro key_absent_store) auto
  with linearProbeInsert_Return[OF l] show ?case
    by auto
next
  case (5 n cfg oldTable i "is" t)
  show ?case
  proof (cases "State (oldTable ! i) = OCCUPIED")
    case False
    with "5.prems" "5.IH"(3) show ?thesis
      by (auto split: if_splits)
  next
    case True
    from "5.prems"(1) have i: "i < length oldTable" by (auto split: if_splits)
    with True "5.prems"(1) obtain t1 where
      t1: "insert_ht n cfg t (Some (Key (oldTable ! i))) (data (oldTable ! i)) = Return () t1"
      and r: "rehash_loop n cfg oldTable is t1 = Return u t'"
      by (auto split: outcome.splits)
    have a1: "key_absent t1 sk"
      using "5.IH"(1)[OF i True t1 "5.prems"(2,3)] "5.prems"(4) i True by simp
    have f1: "keys_fit cfg t1"
      using insert_keys_fit[of n cfg t "Some (Key (oldTable ! i))" "data (oldTable ! i)"] t1 "5.prems"(3)
      by simp
    show ?thesis
      using "5.IH"(2)[OF i True t1 r a1 f1] "5.prems"(4) by simp
  qed
qed auto

lemma find_loop_found:
  "find_loop n t k orig stride idx pr = FindEnd True j pr' \<Longrightarrow>
   \<exists>s. slot_at t j = Some s \<and> State s = OCCUPIED \<and> Key s = k"
  by (induction n arbitrary: idx pr) (auto simp: Let_def split: option.splits if_splits)

lemma insert_then_find_gen:
  assumes ins: "insert_ht n cfg t (Some k) d = Return u t'"
    and abs: "key_absent t sk" and fit: "keys_fit cfg t"
    and sk: "sk = take (MAX_KEYLEN cfg - 1) k"
    and ph: "primary_hash_func cfg sk (tableSize t') = primary_hash_func cfg k (tableSize t')"
    and st: "stride_of cfg t' sk = stride_of cfg t' k"
  shows "\<exists>p. find_ht n cfg t' (Some sk) = Return d (t'\<lparr>probes := p\<rparr>)"
proof -
  from ins obtain n' where n: "n = Suc n'" by (cases n) auto
  from insert_Suc_probed[OF ins[unfolded n]] obtain tp where
    tp: "probed_table n' cfg t = Some tp" and l: "linearProbeInsert n cfg tp k d = Return u t'"
    unfolding n by blast
  have a: "key_absent tp sk"
  proof (cases "CheckResizeRequired cfg t")
    case False
    with tp abs show ?thesis by (simp add: probed_table_def)
  next
    case True
    with tp obtain ns where
      r: "rehash_loop n' cfg (table t) [0 ..< unat (tableSize t)] (alloc_table cfg t ns) = Return () tp"
      by (auto simp: probed_table_def resizeTable_def split: option.splits outcome.splits)
    have old: "\<forall>i\<in>set [0 ..< unat (tableSize t)]. i < length (table t) \<longrightarrow>
        State (table t ! i) = OCCUPIED \<longrightarrow> take (MAX_KEYLEN cfg - 1) (Key (table t ! i)) \<noteq> sk"
      using abs fit by (auto simp: key_absent_def keys_fit_def list_all_iff)
    show ?thesis
      by (rule insert_rehash_key_absent(2)[OF r key_absent_alloc keys_fit_alloc old])
  qed
  from linearProbeInsert_Return[OF l] have sz: "tableSize t' = tableSize tp" by auto
  then have "stride_of cfg t' sk = stride_of cfg tp sk" "stride_of cfg t' k = stride_of cfg tp k"
    by (auto simp: stride_of_def split: option.splits)
  with ph st sz show ?thesis
    by (intro linearProbeInsert_then_find[OF l a sk]) simp_all
qed

lemma alloc_grow_step:
  "new_size cfg t = Some ns \<Longrightarrow> tableSize (alloc_table cfg t ns) = grow_step cfg (tableSize t)"
  by (auto simp: new_size_def alloc_table_def grow_step_def Let_def split: if_splits)

lemma growth_steps_rel:
  "ends_with (insert_ht n cfg t key d)
     (\<lambda>t'. \<exists>j. tableSize t' = (grow_step cfg ^^ j) (tableSize t) \<and> expansions t' = expansions t + of_nat j)"
  "ends_with (rehash_loop n cfg old is t)
     (\<lambda>t'. \<exists>j. tableSize t' = (grow_step cfg ^^ j) (tableSize t) \<and> expansions t' = expansions t + of_nat j)"
proof -
  let ?R = "\<lambda>a b. \<exists>j. tableSize b = (grow_step cfg ^^ j) (tableSize a) \<and> expansions b = expansions a + of_nat j"
  have refl: "?R a a" for a :: "'a OAHashTable"
    by (rule exI[of _ 0]) simp
  have trans: "?R a c" if "?R a b" "?R b c" for a b c :: "'a OAHashTable"
  proof -
    from that obtain i j where
      "tableSize b = (grow_step cfg ^^ i) (tableSize a)" "expansions b = expansions a + of_nat i"
      "tableSize c = (grow_step cfg ^^ j) (tableSize b)" "expansions c = expansions b + of_nat j"
      by blast
    then have "tableSize c = (grow_step cfg ^^ (j + i)) (tableSize a) \<and>
               expansions c = expansions a + of_nat (j + i)"
      by (simp add: funpow_add)
    then show ?thesis by blast
  qed
  have alloc: "?R a (alloc_table cfg a ns)" if "new_size cfg a = Some ns" for a :: "'a OAHashTable" and ns
  proof -
    have "tableSize (alloc_table cfg a ns) = (grow_step cfg ^^ 1) (tableSize a) \<and>
          expansions (alloc_table cfg a ns) = expansions a + of_nat 1"
      using alloc_grow_step[OF that] by (simp add: alloc_table_def Let_def)
    then show ?thesis by blast
  qed
  have lpi: "ends_with (linearProbeInsert m cfg a k v) (?R a)" for m k v and a :: "'a OAHashTable"
    by (rule lpi_ends_with; rule exI[of _ 0]) (simp_all add: store_slot_def)
  show "ends_with (insert_ht n cfg t key d) (?R t)"
    by (rule insert_rehash_rel(1)[where R = ?R, OF refl trans alloc lpi])
  show "ends_with (rehash_loop n cfg old is t) (?R t)"
    by (rule insert_rehash_rel(2)[where R = ?R, OF refl trans alloc lpi])
qed

lemma lpi_same_capacity:
  "ends_with (linearProbeInsert n cfg t k d) (\<lambda>t'. tableSize t' = tableSize t \<and> expansions t' = expansions t)"
  by (rule lpi_ends_with) (simp_all add: store_slot_def)

lemma probe_walk_Cons:
  assumes "probe_walk n m s orig idx = Some ps"
  shows "\<exists>rest. ps = idx # rest \<and>
     (if (idx + s) mod m \<noteq> orig
      then \<exists>n'. n = Suc n' \<and> probe_walk n' m s orig ((idx + s) mod m) = Some rest
      else rest = [])"
  using assms by (cases n) (auto simp: Let_def split: if_splits)

lemma probe_walk_in_range:
  "probe_walk n m s orig idx = Some ps \<Longrightarrow> m \<noteq> 0 \<Longrightarrow> idx < m \<Longrightarrow> \<forall>i\<in>set ps. i < m"
proof (induction n arbitrary: idx ps)
  case 0
  then show ?case by simp
next
  case (Suc n)
  from Suc.prems(2) have "(idx + s) mod m < m"
    by (simp add: word_mod_less_divisor word_neq_0_conv)
  with Suc show ?case
    by (auto simp: Let_def split: if_splits)
qed

lemma probe_walk_total_aux:
  assumes "m \<noteq> 0" "unat m + unat s \<le> 2 ^ 32" "orig < m"
  shows "unat idx = (unat orig + j * unat s) mod unat m \<Longrightarrow> j < unat m \<Longrightarrow> unat m - j \<le> n \<Longrightarrow>
    \<exists>ps. probe_walk n m s orig idx = Some ps"
proof (induction n arbitrary: idx j)
  case 0
  then show ?case by simp
next
  case (Suc n)
  from assms(1) have mpos: "0 < unat m" by (simp add: unat_gt_0)
  from Suc.prems(1) mpos have "unat idx < unat m" by simp
  with assms(2) have no: "unat idx + unat s < 2 ^ LENGTH(32)" by simp
  have step: "unat ((idx + s) mod m) = (unat orig + Suc j * unat s) mod unat m"
  proof -
    have "unat ((idx + s) mod m) = (unat idx + unat s) mod unat m"
      by (simp add: unat_mod unat_add_lem[THEN iffD1, OF no])
    also have "\<dots> = ((unat orig + j * unat s) mod unat m + unat s) mod unat m"
      by (simp only: Suc.prems(1))
    also have "\<dots> = (unat orig + j * unat s + unat s) mod unat m"
      by (rule mod_add_left_eq)
    also have "\<dots> = (unat orig + Suc j * unat s) mod unat m"
      by (simp add: algebra_simps)
    finally show ?thesis .
  qed
  show ?case
  proof (cases "(idx + s) mod m \<noteq> orig")
    case False
    then show ?thesis by (simp add: Let_def)
  next
    case True
    have "Suc j \<noteq> unat m"
    proof
      assume "Suc j = unat m"
      with step have "unat ((idx + s) mod m) = unat orig mod unat m" by simp
      also from assms(3) have "\<dots> = unat orig" by (simp add: word_less_nat_alt)
      finally show False using True by (simp add: word_unat_eq_iff)
    qed
    with Suc.prems(2) have "Suc j < unat m" by simp
    moreover from Suc.prems(3) have "unat m - Suc j \<le> n" by simp
    ultimately obtain ps where "probe_walk n m s orig ((idx + s) mod m) = Some ps"
      using Suc.IH[OF step] by blast
    with True show ?thesis by (simp add: Let_def)
  qed
qed

lemma probe_walk_total:
  assumes "m \<noteq> 0" "unat m + unat s \<le> 2 ^ 32" "orig < m" "unat m \<le> n"
  shows "\<exists>ps. probe_walk n m s orig orig = Some ps"
proof -
  from assms(1) have "0 < unat m" by (simp add: unat_gt_0)
  moreover from assms(3) have "unat orig = (unat orig + 0 * unat s) mod unat m"
    by (simp add: word_less_nat_alt)
  ultimately show ?thesis
    using probe_walk_total_aux[OF assms(1-3), of orig 0 n] assms(4) by simp
qed

lemma insert_point_Cons:
  "insert_point t (i # ps) =
     (if state_at t i = UNOCCUPIED then Some i
      else if state_at t i = DELETED then Some i
      else insert_point t ps)"
  by (simp add: insert_point_def split: option.splits)

lemma slots_examined_Cons:
  "slots_examined t (i # ps) = (if state_at t i = UNOCCUPIED then 1 else Suc (slots_examined t ps))"
  by (simp add: slots_examined_def)

lemma slots_examined_Nil: "slots_examined t [] = 0"
  by (simp add: slots_examined_def)

lemma insert_point_Nil: "insert_point t [] = None"
  by (simp add: insert_point_def)

lemma lpi_loop_walk:
  assumes "tableSize t \<noteq> 0"
  shows "probe_walk n (tableSize t) s orig idx = Some ps \<Longrightarrow>
    \<forall>i\<in>set ps. unat i < length (table t) \<Longrightarrow>
    lpi_loop n cfg t k d orig s idx pc del = lpi_spec cfg t k d pc del ps"
proof (induction n arbitrary: idx pc del ps)
  case 0
  then show ?case by simp
next
  case (Suc n)
  from probe_walk_Cons[OF Suc.prems(1)] obtain rest where ps: "ps = idx # rest"
    and rest: "if (idx + s) mod tableSize t \<noteq> orig
      then probe_walk n (tableSize t) s orig ((idx + s) mod tableSize t) = Some rest
      else rest = []"
    by (auto split: if_splits)
  from Suc.prems(2) ps have rng: "unat idx < length (table t)" and rrng: "\<forall>i\<in>set rest. unat i < length (table t)"
    by auto
  then have s: "slot_at t idx = Some (table t ! unat idx)" by (simp add: slot_at_def)
  show ?case
  proof (cases "state_at t idx = UNOCCUPIED")
    case True
    with s show ?thesis
      by (cases del) (simp_all add: ps lpi_spec_def lpi_end_def insert_point_Cons slots_examined_Cons state_at_def)
  next
    case False
    let ?del' = "if state_at t idx = DELETED \<and> del = None then Some idx else del"
    show ?thesis
    proof (cases "(idx + s) mod tableSize t \<noteq> orig")
      case True
      with rest have w: "probe_walk n (tableSize t) s orig ((idx + s) mod tableSize t) = Some rest"
        by simp
      have "lpi_loop n cfg t k d orig s ((idx + s) mod tableSize t) (pc + 1) ?del' =
            lpi_spec cfg t k d (pc + 1) ?del' rest"
        by (rule Suc.IH[OF w rrng])
      moreover have "lpi_spec cfg t k d (pc + 1) ?del' rest = lpi_spec cfg t k d pc del ps"
        using False
        by (cases del) (simp_all add: ps lpi_spec_def insert_point_Cons slots_examined_Cons add.assoc)
      ultimately show ?thesis
        using False True s assms by (simp add: state_at_def Let_def)
    next
      case wrap: False
      with rest have "rest = []" by simp
      with False wrap s assms show ?thesis
        by (cases del)
           (simp_all add: ps lpi_spec_def lpi_end_def insert_point_Cons insert_point_Nil slots_examined_Cons
              slots_examined_Nil state_at_def Let_def store_slot_probes)
    qed
  qed
qed

lemma find_loop_walk:
  assumes "tableSize t \<noteq> 0"
  shows "probe_walk n (tableSize t) s orig idx = Some (xs @ j # zs) \<Longrightarrow>
    list_all (skipped t k) xs \<Longrightarrow> holds_key t k j \<Longrightarrow>
    find_loop n t k orig s idx pr = FindEnd True j (pr + of_nat (length xs) + 1)"
proof (induction xs arbitrary: n idx pr)
  case Nil
  from probe_walk_Cons[OF Nil.prems(1)[simplified]] have j: "j = idx" by auto
  from Nil.prems(1) obtain n' where "n = Suc n'" by (cases n) auto
  with Nil.prems(3) j show ?case
    by (simp add: holds_key_def slot_at_def state_at_def)
next
  case (Cons x xs)
  from probe_walk_Cons[OF Cons.prems(1)[simplified]] obtain n' where
    x: "x = idx" and nx: "(idx + s) mod tableSize t \<noteq> orig" and n: "n = Suc n'"
    and w: "probe_walk n' (tableSize t) s orig ((idx + s) mod tableSize t) = Some (xs @ j # zs)"
    by (auto split: if_splits)
  from Cons.prems(2) have sk: "skipped t k idx" and rest: "list_all (skipped t k) xs"
    by (simp_all add: x)
  have "find_loop n' t k orig s ((idx + s) mod tableSize t) (pr + 1) =
        FindEnd True j (pr + 1 + of_nat (length xs) + 1)"
    by (rule Cons.IH[OF w rest Cons.prems(3)])
  with sk nx assms show ?case
    by (auto simp: n skipped_def slot_at_def state_at_def Let_def add.assoc add.commute)
qed

lemma remove_loop_walk:
  assumes "tableSize t \<noteq> 0" "deletion_policy cfg = MARK"
  shows "probe_walk n (tableSize t) s orig idx = Some (xs @ j # zs) \<Longrightarrow>
    list_all (skipped t k) xs \<Longrightarrow> holds_key t k j \<Longrightarrow>
    remove_loop n cfg t k orig s idx pc =
      Return (True, pc + of_nat (length xs) + 1)
        ((set_State (release_slot cfg t j) j DELETED)\<lparr>count := count (release_slot cfg t j) - 1\<rparr>)"
proof (induction xs arbitrary: n idx pc)
  case Nil
  from probe_walk_Cons[OF Nil.prems(1)[simplified]] have j: "j = idx" by auto
  from Nil.prems(1) obtain n' where "n = Suc n'" by (cases n) auto
  with Nil.prems(3) j assms(2) show ?case
    by (simp add: holds_key_def slot_at_def state_at_def Let_def)
next
  case (Cons x xs)
  from probe_walk_Cons[OF Cons.prems(1)[simplified]] obtain n' where
    x: "x = idx" and nx: "(idx + s) mod tableSize t \<noteq> orig" and n: "n = Suc n'"
    and w: "probe_walk n' (tableSize t) s orig ((idx + s) mod tableSize t) = Some (xs @ j # zs)"
    by (auto split: if_splits)
  from Cons.prems(2) have sk: "skipped t k idx" and rest: "list_all (skipped t k) xs"
    by (simp_all add: x)
  have "remove_loop n' cfg t k orig s ((idx + s) mod tableSize t) (pc + 1) =
      Return (True, pc + 1 + of_nat (length xs) + 1)
        ((set_State (release_slot cfg t j) j DELETED)\<lparr>count := count (release_slot cfg t j) - 1\<rparr>)"
    by (rule Cons.IH[OF w rest Cons.prems(3)])
  with sk nx assms(1) show ?case
    by (auto simp: n skipped_def slot_at_def state_at_def Let_def add.assoc add.commute)
qed

lemma table_marked:
  "unat i < length (table t) \<Longrightarrow>
   table (set_State (release_slot cfg t i) i DELETED) = mark_deleted cfg t i"
proof -
  have same: "s\<lparr>data := v\<rparr> = s" if "data s = v" for s :: "'a OAHTSlot" and v
    using that by (cases s) auto
  assume "unat i < length (table t)"
  then show ?thesis
    by (cases "data (table t ! unat i)")
       (auto simp: set_State_def release_slot_def mark_deleted_def same)
qed

lemma marked_other:
  "tableSize (set_State (release_slot cfg t i) i DELETED) = tableSize t"
  "count (release_slot cfg t i) = count t"
  by (auto simp: set_State_def release_slot_def split: option.splits)

lemma length_filter_update:
  "p < length xs \<Longrightarrow> \<not> P (xs ! p) \<Longrightarrow>
   length (filter P (xs[p := y])) = length (filter P xs) + (if P y then 1 else 0)"
proof (induction xs arbitrary: p)
  case Nil
  then show ?case by simp
next
  case (Cons x xs)
  then show ?case by (cases p) auto
qed

lemma occurrences_store:
  assumes "unat p < length (table t)" "State (table t ! unat p) \<noteq> OCCUPIED"
  shows "occurrences cfg (table ((store_slot cfg t p K d)\<lparr>probes := q\<rparr>)) k v =
         occurrences cfg (table t) k v + (if take (MAX_KEYLEN cfg - 1) K = k \<and> d = v then 1 else 0)"
  using assms by (simp add: occurrences_def store_slot_def length_filter_update)

lemma occurrences_alloc: "occurrences cfg (table (alloc_table cfg t ns)) k v = 0"
  by (simp add: occurrences_def alloc_table_def Let_def init_slot_def)

lemma length_alloc: "length (table (alloc_table cfg t ns)) = unat (tableSize (alloc_table cfg t ns))"
  by (simp add: alloc_table_def Let_def)

lemma occurrences_indices:
  "length (filter (\<lambda>i. State (old ! i) = OCCUPIED \<and> take (MAX_KEYLEN cfg - 1) (Key (old ! i)) = k \<and>
      data (old ! i) = v) [0 ..< length old]) = occurrences cfg old k v"
proof -
  have "filter (\<lambda>s. State s = OCCUPIED \<and> take (MAX_KEYLEN cfg - 1) (Key s) = k \<and> data s = v)
          (map ((!) old) [0 ..< length old]) =
        map ((!) old) (filter (\<lambda>i. State (old ! i) = OCCUPIED \<and>
          take (MAX_KEYLEN cfg - 1) (Key (old ! i)) = k \<and> data (old ! i) = v) [0 ..< length old])"
    by (simp add: filter_map comp_def)
  then show ?thesis
    by (simp add: occurrences_def map_nth)
qed

lemma insert_rehash_occurrences:
  "insert_ht n cfg t key d = Return u t' \<Longrightarrow> length (table t) = unat (tableSize t) \<Longrightarrow>
     length (table t') = unat (tableSize t') \<and>
     (\<forall>K. key = Some K \<longrightarrow> (\<forall>k v. occurrences cfg (table t') k v =
        occurrences cfg (table t) k v + (if take (MAX_KEYLEN cfg - 1) K = k \<and> d = v then 1 else 0)))"
  "rehash_loop n cfg old is t = Return u t' \<Longrightarrow> length (table t) = unat (tableSize t) \<Longrightarrow>
     length (table t') = unat (tableSize t') \<and>
     (\<forall>k v. occurrences cfg (table t') k v = occurrences cfg (table t) k v +
        length (filter (\<lambda>i. State (old ! i) = OCCUPIED \<and>
          take (MAX_KEYLEN cfg - 1) (Key (old ! i)) = k \<and> data (old ! i) = v) is))"
proof (induction n cfg t key d and n cfg old "is" t arbitrary: t' u and t' u rule: insert_ht_rehash_loop.induct)
  case (3 n cfg t k d)
  from insert_Suc_probed[OF "3.prems"(1)] obtain tp where
    tp: "probed_table n cfg t = Some tp" and l: "linearProbeInsert (Suc n) cfg tp k d = Return u t'"
    by blast
  have pre: "length (table tp) = unat (tableSize tp) \<and>
      (\<forall>k v. occurrences cfg (table tp) k v = occurrences cfg (table t) k v)"
  proof (cases "CheckResizeRequired cfg t")
    case False
    with tp "3.prems"(2) show ?thesis by (simp add: probed_table_def)
  next
    case True
    with tp obtain ns where ns: "new_size cfg t = Some ns"
      and r: "rehash_loop n cfg (table t) [0 ..< unat (tableSize t)] (alloc_table cfg t ns) = Return () tp"
      by (auto simp: probed_table_def resizeTable_def split: option.splits outcome.splits)
    have idx: "length (filter (\<lambda>i. State (table t ! i) = OCCUPIED \<and>
          take (MAX_KEYLEN cfg - 1) (Key (table t ! i)) = k' \<and> data (table t ! i) = v)
          [0 ..< unat (tableSize t)]) = occurrences cfg (table t) k' v" for k' v
      using occurrences_indices[of "table t" cfg k' v] "3.prems"(2) by simp
    from "3.IH"[OF True ns r length_alloc] idx show ?thesis
      by (simp add: occurrences_alloc)
  qed
  from linearProbeInsert_Return[OF l] obtain p q where
    t': "t' = (store_slot cfg tp p k d)\<lparr>probes := q\<rparr>"
    and p: "unat p < length (table tp)" "State (table tp ! unat p) \<noteq> OCCUPIED"
    by blast
  from pre have "length (table t') = unat (tableSize t')"
    by (simp add: t' store_slot_def)
  moreover have "occurrences cfg (table t') k' v =
      occurrences cfg (table t) k' v + (if take (MAX_KEYLEN cfg - 1) k = k' \<and> d = v then 1 else 0)" for k' v
    unfolding t' occurrences_store[OF p] using pre by simp
  ultimately show ?case by simp
next
  case (5 n cfg oldTable i "is" t)
  show ?case
  proof (cases "State (oldTable ! i) = OCCUPIED")
    case False
    with "5.prems" "5.IH"(3) show ?thesis
      by (auto split: if_splits)
  next
    case True
    from "5.prems"(1) have i: "i < length oldTable" by (auto split: if_splits)
    with True "5.prems"(1) obtain t1 where
      t1: "insert_ht n cfg t (Some (Key (oldTable ! i))) (data (oldTable ! i)) = Return () t1"
      and r: "rehash_loop n cfg oldTable is t1 = Return u t'"
      by (auto split: outcome.splits)
    note a = "5.IH"(1)[OF i True t1 "5.prems"(2)]
    then have len1: "length (table t1) = unat (tableSize t1)" by simp
    note b = "5.IH"(2)[OF i True t1 r len1]
    from a b True show ?thesis by simp
  qed
qed auto

subsection \<open>Counting slots and probes\<close>

lemma CheckResizeRequired_cong:
  "count a = count b \<Longrightarrow> tableSize a = tableSize b \<Longrightarrow>
   CheckResizeRequired cfg a = CheckResizeRequired cfg b"
  by (simp add: CheckResizeRequired_def)

lemma occupied_count_le: "occupied_count slots \<le> length slots"
  by (simp add: occupied_count_def)

lemma occupied_count_indices:
  "length (filter (\<lambda>i. State (old ! i) = OCCUPIED) [0 ..< length old]) = occupied_count old"
proof -
  have "filter (\<lambda>s. State s = OCCUPIED) (map ((!) old) [0 ..< length old]) =
        map ((!) old) (filter (\<lambda>i. State (old ! i) = OCCUPIED) [0 ..< length old])"
    by (simp add: filter_map comp_def)
  then show ?thesis
    by (simp add: occupied_count_def map_nth)
qed

lemma insert_no_growth:
  assumes "insert_ht n cfg t (Some k) d = Return u t'" "\<not> CheckResizeRequired cfg t"
  shows "count t' = count t + 1 \<and> tableSize t' = tableSize t \<and> expansions t' = expansions t"
proof -
  from assms(1) obtain n' where n: "n = Suc n'" by (cases n) auto
  with assms have "linearProbeInsert n cfg t k d = Return u t'" by simp
  from linearProbeInsert_Return[OF this] show ?thesis
    by (auto simp: store_slot_def)
qed

lemma rehash_loop_no_growth:
  fixes ta :: "'a OAHashTable"
  assumes nb: "\<And>t1 :: 'a OAHashTable. tableSize t1 = M \<Longrightarrow> unat (count t1) < b \<Longrightarrow> \<not> CheckResizeRequired cfg t1"
    and b: "b < 2 ^ 32"
  shows "rehash_loop n cfg old is ta = Return u tg \<Longrightarrow> tableSize ta = M \<Longrightarrow>
     unat (count ta) + length (filter (\<lambda>i. State (old ! i) = OCCUPIED) is) \<le> b \<Longrightarrow>
     tableSize tg = M \<and> expansions tg = expansions ta \<and>
     unat (count tg) = unat (count ta) + length (filter (\<lambda>i. State (old ! i) = OCCUPIED) is)"
proof (induction "is" arbitrary: ta)
  case Nil
  then show ?case by simp
next
  case (Cons i "is")
  from Cons.prems(1) have i: "i < length old" by (auto split: if_splits)
  show ?case
  proof (cases "State (old ! i) = OCCUPIED")
    case False
    with i Cons.prems have "rehash_loop n cfg old is ta = Return u tg" by simp
    from Cons.IH[OF this Cons.prems(2)] Cons.prems(3) False show ?thesis by simp
  next
    case True
    with i Cons.prems(1) obtain t1 where
      t1: "insert_ht n cfg ta (Some (Key (old ! i))) (data (old ! i)) = Return () t1"
      and r: "rehash_loop n cfg old is t1 = Return u tg"
      by (auto split: outcome.splits)
    from Cons.prems(3) True have lt: "unat (count ta) < b" by simp
    from nb[OF Cons.prems(2) lt] have ng: "\<not> CheckResizeRequired cfg ta" .
    from insert_no_growth[OF t1 ng] have c1: "count t1 = count ta + 1" and m1: "tableSize t1 = M"
      and e1: "expansions t1 = expansions ta"
      using Cons.prems(2) by simp_all
    from lt b have "unat (count ta) + 1 < 2 ^ LENGTH(32)" by simp
    then have u1: "unat (count t1) = Suc (unat (count ta))"
      unfolding c1 by (simp add: unat_add_lem[THEN iffD1])
    from Cons.prems(3) True u1
    have "unat (count t1) + length (filter (\<lambda>i. State (old ! i) = OCCUPIED) is) \<le> b" by simp
    from Cons.IH[OF r m1 this] u1 e1 True show ?thesis by simp
  qed
qed

lemma lookup_examined_Cons:
  "lookup_examined t k (i # ps) = (if skipped t k i then Suc (lookup_examined t k ps) else 1)"
  by (simp add: lookup_examined_def)

lemma lookup_examined_Nil: "lookup_examined t k [] = 0"
  by (simp add: lookup_examined_def)

lemma find_loop_examined:
  assumes "tableSize t \<noteq> 0"
  shows "probe_walk n (tableSize t) s orig idx = Some ps \<Longrightarrow>
    \<forall>i\<in>set ps. unat i < length (table t) \<Longrightarrow>
    \<exists>b j. find_loop n t k orig s idx pr = FindEnd b j (pr + of_nat (lookup_examined t k ps))"
proof (induction n arbitrary: idx pr ps)
  case 0
  then show ?case by simp
next
  case (Suc n)
  from probe_walk_Cons[OF Suc.prems(1)] obtain rest where ps: "ps = idx # rest"
    and rest: "if (idx + s) mod tableSize t \<noteq> orig
      then probe_walk n (tableSize t) s orig ((idx + s) mod tableSize t) = Some rest
      else rest = []"
    by (auto split: if_splits)
  from Suc.prems(2) ps have rng: "unat idx < length (table t)" and rrng: "\<forall>i\<in>set rest. unat i < length (table t)"
    by auto
  then have s: "slot_at t idx = Some (table t ! unat idx)" by (simp add: slot_at_def)
  show ?case
  proof (cases "skipped t k idx")
    case False
    with rng s show ?thesis
      by (auto simp: ps lookup_examined_Cons skipped_def state_at_def)
  next
    case True
    show ?thesis
    proof (cases "(idx + s) mod tableSize t \<noteq> orig")
      case step: True
      with rest have w: "probe_walk n (tableSize t) s orig ((idx + s) mod tableSize t) = Some rest"
        by simp
      from Suc.IH[OF w rrng, of "pr + 1"] obtain b j where
        "find_loop n t k orig s ((idx + s) mod tableSize t) (pr + 1) =
           FindEnd b j (pr + 1 + of_nat (lookup_examined t k rest))"
        by blast
      with True step s assms show ?thesis
        by (auto simp: ps lookup_examined_Cons skipped_def state_at_def Let_def add.assoc)
    next
      case wrap: False
      with rest have "rest = []" by simp
      with True wrap s assms show ?thesis
        by (auto simp: ps lookup_examined_Cons lookup_examined_Nil skipped_def state_at_def Let_def)
    qed
  qed
qed

lemma remove_loop_examined:
  assumes "tableSize t \<noteq> 0"
  shows "probe_walk n (tableSize t) s orig idx = Some ps \<Longrightarrow>
    \<forall>i\<in>set ps. unat i < length (table t) \<Longrightarrow>
    remove_loop n cfg t k orig s idx pc = Return (False, pc') t' \<Longrightarrow>
    pc' = pc + of_nat (lookup_examined t k ps)"
proof (induction n arbitrary: idx pc ps)
  case 0
  then show ?case by simp
next
  case (Suc n)
  from probe_walk_Cons[OF Suc.prems(1)] obtain rest where ps: "ps = idx # rest"
    and rest: "if (idx + s) mod tableSize t \<noteq> orig
      then probe_walk n (tableSize t) s orig ((idx + s) mod tableSize t) = Some rest
      else rest = []"
    by (auto split: if_splits)
  from Suc.prems(2) ps have rng: "unat idx < length (table t)" and rrng: "\<forall>i\<in>set rest. unat i < length (table t)"
    by auto
  then have s: "slot_at t idx = Some (table t ! unat idx)" by (simp add: slot_at_def)
  show ?case
  proof (cases "State (table t ! unat idx) = OCCUPIED \<and> Key (table t ! unat idx) = k")
    case True
    with s Suc.prems(3) show ?thesis
      by (auto simp: Let_def split: OAHTDeletionPolicy.splits outcome.splits)
  next
    case nomatch: False
    show ?thesis
    proof (cases "State (table t ! unat idx) = UNOCCUPIED")
      case True
      with nomatch s Suc.prems(3) rng show ?thesis
        by (auto simp: ps lookup_examined_Cons skipped_def state_at_def)
    next
      case False
      with nomatch rng have sk: "skipped t k idx" by (auto simp: skipped_def state_at_def)
      show ?thesis
      proof (cases "(idx + s) mod tableSize t \<noteq> orig")
        case step: True
        with rest have w: "probe_walk n (tableSize t) s orig ((idx + s) mod tableSize t) = Some rest"
          by simp
        from Suc.prems(3) nomatch False step s assms
        have "remove_loop n cfg t k orig s ((idx + s) mod tableSize t) (pc + 1) = Return (False, pc') t'"
          by (auto simp: Let_def)
        from Suc.IH[OF w rrng this] sk show ?thesis
          by (simp add: ps lookup_examined_Cons add.assoc)
      next
        case wrap: False
        with rest have "rest = []" by simp
        with Suc.prems(3) nomatch False wrap s assms sk show ?thesis
          by (auto simp: ps lookup_examined_Cons lookup_examined_Nil Let_def)
      qed
    qed
  qed
qed

lemma room_full:
  fixes M :: u32
  assumes "M \<noteq> 0" "to_double (of_nat (Suc c) / of_nat (unat M)) \<le> 1"
  shows "Suc c \<le> unat M"
proof (rule ccontr)
  assume "\<not> Suc c \<le> unat M"
  then have gt: "unat M + 1 \<le> Suc c" by simp
  from assms(1) have mpos: "0 < unat M" by (simp add: unat_gt_0)
  then have mr: "(0::rat) < of_nat (unat M)" by (simp only: of_nat_0_less_iff)
  have "unat M < 2 ^ 32" using unsigned_less[of M, where 'a = nat] by simp
  then have "(of_nat (unat M) :: rat) < of_nat (2 ^ 32)" by (simp only: of_nat_less_iff)
  then have ml: "(of_nat (unat M) :: rat) \<le> 2 ^ 32" by simp
  have "(1::rat) + 1 / 2 ^ 32 \<le> 1 + 1 / of_nat (unat M)"
    using ml mr by (simp add: frac_le)
  also have "\<dots> = (of_nat (unat M) + 1) / of_nat (unat M)"
    using mr by (simp add: field_simps)
  also have "\<dots> \<le> of_nat (Suc c) / of_nat (unat M)"
  proof -
    from gt have "(of_nat (unat M + 1) :: rat) \<le> of_nat (Suc c)" by (simp only: of_nat_le_iff)
    then have "(of_nat (unat M) + 1 :: rat) \<le> of_nat (Suc c)" by simp
    with mr show ?thesis by (simp only: divide_right_mono less_imp_le)
  qed
  finally have "1 < to_double (of_nat (Suc c) / of_nat (unat M))"
    by (rule to_double_above_one)
  with assms(2) show False by simp
qed

lemma room_no_growth:
  fixes t1 :: "'a OAHashTable" and M :: u32
  assumes M: "M \<noteq> 0"
    and room: "to_double (of_nat (Suc c) / of_nat (unat M)) \<le> max_load_factor cfg"
    and c: "c < 2 ^ 32"
    and t1: "tableSize t1 = M" "unat (count t1) < c"
  shows "\<not> CheckResizeRequired cfg t1"
proof (cases "max_load_factor cfg = 1")
  case True
  with room have "Suc c \<le> unat M" using room_full[OF M] by simp
  with t1(2) have "unat (count t1) \<noteq> unat M" by simp
  then have "count t1 \<noteq> M" by auto
  with True t1(1) show ?thesis by (simp add: CheckResizeRequired_def)
next
  case False
  from M have "0 < unat M" by (simp add: unat_gt_0)
  then have mr: "(0::rat) < of_nat (unat M)" by (simp only: of_nat_0_less_iff)
  from t1(2) c have "unat (count t1) + 1 < 2 ^ LENGTH(32)" by simp
  then have u: "unat (count t1 + 1) = Suc (unat (count t1))"
    by (simp add: unat_add_lem[THEN iffD1])
  from t1(2) have "Suc (unat (count t1)) \<le> Suc c" by simp
  then have "to_double (of_nat (Suc (unat (count t1))) / of_nat (unat M))
      \<le> to_double (of_nat (Suc c) / of_nat (unat M))"
    by (rule to_double_ratio_mono)
  with room have "to_double (of_nat (unat (count t1 + 1)) / of_nat (unat (tableSize t1))) \<le> max_load_factor cfg"
    unfolding u t1(1) by simp
  with False M t1(1) show ?thesis by (simp add: CheckResizeRequired_def)
qed

section \<open>The claims\<close>

subsection \<open>C1: find after insert\<close>

text \<open>
  The claim includes tables that already hold the key. \<open>insert\<close> does not look at the
  keys of occupied slots, so a second insert of "a" takes the next free slot of the
  probe sequence, and \<open>find\<close> stops at the first occurrence: it returns the old value 1,
  not the value 2 just inserted.
\<close>

theorem duplicate_insert_find_counterexample:
  "insert_ht 10 (test_config None (3/4) MARK) empty7 (Some ''a'') (Some 1) = Return () a_once
   \<and> insert_ht 10 (test_config None (3/4) MARK) a_once (Some ''a'') (Some 2) = Return () a_twice
   \<and> find_ht 10 (test_config None (3/4) MARK) a_twice (Some ''a'')
       = Return (Some 1) (a_twice\<lparr>probes := 4\<rparr>)"
  by code_simp

text \<open>
  C1, as amended: when no occupied slot of the table holds the key, and the key has
  fewer than \<open>MAX_KEYLEN\<close> characters, every \<open>insert\<close> of the key that returns is
  followed by a \<open>find\<close> of the key that returns the inserted value (the table may have
  been grown by the insert; every key buffer of the table holds at most
  \<open>MAX_KEYLEN - 1\<close> characters, as in the program).
\<close>

theorem insert_then_find:
  assumes "insert_ht n cfg t (Some k) d = Return u t'"
    and "length k < MAX_KEYLEN cfg"
    and "key_absent t k" and "keys_fit cfg t"
  shows "\<exists>p. find_ht n cfg t' (Some k) = Return d (t'\<lparr>probes := p\<rparr>)"
proof -
  from assms(2) have "k = take (MAX_KEYLEN cfg - 1) k" by simp
  from insert_then_find_gen[OF assms(1) assms(3,4) this] show ?thesis by simp
qed

theorem insert_then_find_witness:
  "insert_ht 10 (test_config None (7/10) MARK) four_keys (Some ''e'') (Some 5) = Return () five_keys
   \<and> length ''e'' < MAX_KEYLEN (test_config None (7/10) MARK)
   \<and> key_absent four_keys ''e'' \<and> keys_fit (test_config None (7/10) MARK) four_keys
   \<and> (\<exists>p. find_ht 10 (test_config None (7/10) MARK) five_keys (Some ''e'')
          = Return (Some 5) (five_keys\<lparr>probes := p\<rparr>))"
proof -
  have 1: "insert_ht 10 (test_config None (7/10) MARK) four_keys (Some ''e'') (Some 5) = Return () five_keys"
    by code_simp
  have 2: "length ''e'' < MAX_KEYLEN (test_config None (7/10) MARK)" by code_simp
  have 3: "key_absent four_keys ''e''" by code_simp
  have 4: "keys_fit (test_config None (7/10) MARK) four_keys" by code_simp
  from insert_then_find[OF 1 2 3 4] 1 2 3 4 show ?thesis by blast
qed

subsection \<open>C2: what a failing call leaves behind\<close>

text \<open>
  The claim says that a failing call leaves every member as it was, \<open>probes\<close>
  included. A \<open>find\<close> of a key that is not in an empty table has examined one slot
  when it throws, and \<open>probes\<close> is 1.
\<close>

theorem failing_find_counts_probes_counterexample:
  "find_ht 10 (test_config None (3/4) MARK) empty7 (Some ''a'')
     = Throw (E_ITEM_NOT_FOUND, ''Item not found in table.'') (empty7\<lparr>probes := 1\<rparr>)
   \<and> probes empty7 = 0
   \<and> empty7\<lparr>probes := 1\<rparr> \<noteq> empty7"
  by code_simp

text \<open>
  An \<open>insert\<close> that throws the table-full error after it has grown the table does not
  leave the slot array, the capacity and \<open>expansions\<close> as they were. With a secondary
  hash function that makes the stride the capacity, the key "r" meets the key "a" in
  slot 12 of the grown table, and the call throws from the table of capacity 17.
\<close>

theorem failing_insert_keeps_grown_table:
  "insert_ht 10 (test_config (Some capacity_stride) (1/4) MARK) empty7 (Some ''a'') (Some 1) = Return () a_once
   \<and> insert_ht 10 (test_config (Some capacity_stride) (1/4) MARK) a_once (Some ''r'') (Some 2)
       = Throw (E_NO_MEMORY, ''Failed to insert item.'') a_regrown
   \<and> table a_regrown \<noteq> table a_once
   \<and> tableSize a_once = 7 \<and> tableSize a_regrown = 17
   \<and> expansions a_once = 0 \<and> expansions a_regrown = 1"
  by code_simp

text \<open>
  C2, as amended: a call that fails on a null key leaves the whole table as it was. A
  \<open>find\<close> that throws, a \<open>remove\<close> that throws \<open>E_ITEM_NOT_FOUND\<close>, and an \<open>insert\<close>
  that throws without having grown the table leave the slot array, \<open>count\<close>, the
  capacity, \<open>expansions\<close> and the release log as they were, and only \<open>probes\<close> has
  changed. An \<open>insert\<close> that throws after \<open>CheckResizeRequired\<close> held leaves the table
  as \<open>resizeTable\<close> threw it, or the grown table that \<open>resizeTable\<close> returned with only
  \<open>probes\<close> changed. On a table of capacity other than 0 whose slot array has that
  capacity, for a key whose start index is below the capacity and whose stride does
  not carry the index sum beyond 32 bits, and with fuel for one cycle, \<open>probes\<close> has
  advanced by the number of slots examined along the probe sequence \<open>ps\<close> of the key:
  for \<open>find\<close> and \<open>remove\<close> the slots stepped over and the slot that stopped the walk,
  for \<open>insert\<close> the whole cycle.
\<close>

theorem failing_call_frame:
  "(\<forall>e t'. insert_ht n cfg t None d = Throw e t' \<longrightarrow> t' = t) \<and>
   (\<forall>e t'. find_ht n cfg t None = Throw e t' \<longrightarrow> t' = t) \<and>
   (\<forall>e t'. remove_ht n cfg t None = Throw e t' \<longrightarrow> t' = t) \<and>
   (\<forall>key e t'. find_ht n cfg t key = Throw e t' \<longrightarrow> (\<exists>p. t' = t\<lparr>probes := p\<rparr>)) \<and>
   (\<forall>key e t'. remove_ht n cfg t key = Throw e t' \<longrightarrow> fst e = E_ITEM_NOT_FOUND \<longrightarrow>
      (\<exists>p. t' = t\<lparr>probes := p\<rparr>)) \<and>
   (\<forall>k e t'. \<not> CheckResizeRequired cfg t \<longrightarrow> insert_ht n cfg t (Some k) d = Throw e t' \<longrightarrow>
      (\<exists>p. t' = t\<lparr>probes := p\<rparr>)) \<and>
   (\<forall>k e t'. CheckResizeRequired cfg t \<longrightarrow> insert_ht n cfg t (Some k) d = Throw e t' \<longrightarrow>
      (\<exists>ns. new_size cfg t = Some ns \<and>
         (resizeTable (n - 1) cfg t ns = Throw e t' \<or>
          (\<exists>tg p. resizeTable (n - 1) cfg t ns = Return () tg \<and> t' = tg\<lparr>probes := p\<rparr>)))) \<and>
   (\<forall>k. tableSize t \<noteq> 0 \<and> length (table t) = unat (tableSize t) \<and>
        primary_hash_func cfg k (tableSize t) < tableSize t \<and>
        unat (tableSize t) + unat (stride_of cfg t k) \<le> 2 ^ 32 \<and> unat (tableSize t) \<le> n \<longrightarrow>
      (\<exists>ps. probe_walk n (tableSize t) (stride_of cfg t k)
               (primary_hash_func cfg k (tableSize t)) (primary_hash_func cfg k (tableSize t)) = Some ps \<and>
         (\<forall>e t'. find_ht n cfg t (Some k) = Throw e t' \<longrightarrow>
            t' = t\<lparr>probes := probes t + of_nat (lookup_examined t k ps)\<rparr>) \<and>
         (\<forall>e t'. remove_ht n cfg t (Some k) = Throw e t' \<longrightarrow> fst e = E_ITEM_NOT_FOUND \<longrightarrow>
            t' = t\<lparr>probes := probes t + of_nat (lookup_examined t k ps)\<rparr>) \<and>
         (\<forall>e t'. \<not> CheckResizeRequired cfg t \<longrightarrow> insert_ht n cfg t (Some k) d = Throw e t' \<longrightarrow>
            t' = t\<lparr>probes := probes t + of_nat (slots_examined t ps)\<rparr> \<and>
            slots_examined t ps = length ps)))"
proof (intro conjI allI impI)
  fix e t' assume "insert_ht n cfg t None d = Throw e t'"
  then show "t' = t" by simp
next
  fix e t' assume "find_ht n cfg t None = Throw e t'"
  then show "t' = t" by simp
next
  fix e t' assume "remove_ht n cfg t None = Throw e t'"
  then show "t' = t" by simp
next
  fix key e t' assume "find_ht n cfg t key = Throw e t'"
  then show "\<exists>p. t' = t\<lparr>probes := p\<rparr>"
    by (cases key) (auto simp: Let_def intro: exI[of _ "probes t"] split: find_end.splits if_splits option.splits)
next
  fix key e t' assume a: "remove_ht n cfg t key = Throw e t'" "fst e = E_ITEM_NOT_FOUND"
  show "\<exists>p. t' = t\<lparr>probes := p\<rparr>"
  proof (cases key)
    case None
    with a show ?thesis by (auto intro: exI[of _ "probes t"])
  next
    case (Some k)
    with a show ?thesis
      by (auto simp: Let_def split: outcome.splits prod.splits if_splits
          dest: remove_loop_not_found remove_loop_Throw_code)
  qed
next
  fix k e t' assume a: "\<not> CheckResizeRequired cfg t" "insert_ht n cfg t (Some k) d = Throw e t'"
  then obtain n' where n: "n = Suc n'" by (cases n) auto
  with a have "linearProbeInsert n cfg t k d = Throw e t'" by simp
  then show "\<exists>p. t' = t\<lparr>probes := p\<rparr>"
    by (auto dest: linearProbeInsert_Throw)
next
  fix k e t' assume a: "CheckResizeRequired cfg t" "insert_ht n cfg t (Some k) d = Throw e t'"
  then obtain n' where n: "n = Suc n'" by (cases n) auto
  from a obtain ns where ns: "new_size cfg t = Some ns"
    by (cases "new_size cfg t") (auto simp: n)
  show "\<exists>ns. new_size cfg t = Some ns \<and>
         (resizeTable (n - 1) cfg t ns = Throw e t' \<or>
          (\<exists>tg p. resizeTable (n - 1) cfg t ns = Return () tg \<and> t' = tg\<lparr>probes := p\<rparr>))"
  proof (cases "resizeTable n' cfg t ns")
    case (Return u tg)
    with a ns have "linearProbeInsert n cfg tg k d = Throw e t'"
      by (simp add: n resizeTable_def)
    from linearProbeInsert_Throw[OF this] Return ns show ?thesis
      by (auto simp: n)
  next
    case (Throw e' tg)
    with a ns have "e' = e" "tg = t'" by (simp_all add: n resizeTable_def)
    with Throw ns show ?thesis by (simp add: n)
  next
    case UndefinedBehaviour
    with a ns show ?thesis by (simp add: n resizeTable_def)
  next
    case OutOfFuel
    with a ns show ?thesis by (simp add: n resizeTable_def)
  qed
next
  fix k
  let ?orig = "primary_hash_func cfg k (tableSize t)"
  assume wf: "tableSize t \<noteq> 0 \<and> length (table t) = unat (tableSize t) \<and>
        ?orig < tableSize t \<and>
        unat (tableSize t) + unat (stride_of cfg t k) \<le> 2 ^ 32 \<and> unat (tableSize t) \<le> n"
  then have m0: "tableSize t \<noteq> 0" and len: "length (table t) = unat (tableSize t)"
    and hr: "?orig < tableSize t" and no: "unat (tableSize t) + unat (stride_of cfg t k) \<le> 2 ^ 32"
    and fuel: "unat (tableSize t) \<le> n" by simp_all
  from probe_walk_total[OF m0 no hr fuel] obtain ps where
    w: "probe_walk n (tableSize t) (stride_of cfg t k) ?orig ?orig = Some ps"
    by blast
  from probe_walk_in_range[OF w m0 hr] len
  have rng: "\<forall>i\<in>set ps. unat i < length (table t)"
    by (simp add: word_less_nat_alt)
  have f: "t' = t\<lparr>probes := probes t + of_nat (lookup_examined t k ps)\<rparr>"
    if "find_ht n cfg t (Some k) = Throw e t'" for e t'
  proof -
    from find_loop_examined[OF m0 w rng, of k "probes t"] obtain b j where
      "find_loop n t k ?orig (stride_of cfg t k) ?orig (probes t) =
         FindEnd b j (probes t + of_nat (lookup_examined t k ps))"
      by blast
    with that show ?thesis
      by (auto simp: Let_def split: if_splits option.splits)
  qed
  have r: "t' = t\<lparr>probes := probes t + of_nat (lookup_examined t k ps)\<rparr>"
    if "remove_ht n cfg t (Some k) = Throw e t'" "fst e = E_ITEM_NOT_FOUND" for e t'
  proof -
    from that obtain pc where
      rl: "remove_loop n cfg t k ?orig (stride_of cfg t k) ?orig 0 = Return (False, pc) t"
      and t': "t' = t\<lparr>probes := probes t + pc\<rparr>"
      by (auto simp: Let_def split: outcome.splits prod.splits if_splits
          dest: remove_loop_not_found remove_loop_Throw_code)
    from remove_loop_examined[OF m0 w rng rl] t' show ?thesis by simp
  qed
  have i: "t' = t\<lparr>probes := probes t + of_nat (slots_examined t ps)\<rparr> \<and> slots_examined t ps = length ps"
    if "\<not> CheckResizeRequired cfg t" "insert_ht n cfg t (Some k) d = Throw e t'" for e t'
  proof -
    from that obtain n' where n: "n = Suc n'" by (cases n) auto
    with that have l: "linearProbeInsert n cfg t k d = Throw e t'" by simp
    have "linearProbeInsert n cfg t k d = lpi_spec cfg t k d 0 None ps"
      unfolding linearProbeInsert_def Let_def by (rule lpi_loop_walk[OF m0 w rng])
    with l have none: "insert_point t ps = None"
      and t': "t' = t\<lparr>probes := probes t + of_nat (slots_examined t ps)\<rparr>"
      by (auto simp: lpi_spec_def lpi_end_def split: option.splits)
    from none have "List.find (\<lambda>i. state_at t i = UNOCCUPIED) ps = None"
      by (simp add: insert_point_def Let_def split: option.splits)
    then have tw: "takeWhile (\<lambda>i. state_at t i \<noteq> UNOCCUPIED) ps = ps"
      by (simp add: find_None_iff takeWhile_eq_all_conv)
    have "slots_examined t ps = length ps" unfolding slots_examined_def tw by simp
    with t' show ?thesis by simp
  qed
  from w f r i
  show "\<exists>ps. probe_walk n (tableSize t) (stride_of cfg t k) ?orig ?orig = Some ps \<and>
         (\<forall>e t'. find_ht n cfg t (Some k) = Throw e t' \<longrightarrow>
            t' = t\<lparr>probes := probes t + of_nat (lookup_examined t k ps)\<rparr>) \<and>
         (\<forall>e t'. remove_ht n cfg t (Some k) = Throw e t' \<longrightarrow> fst e = E_ITEM_NOT_FOUND \<longrightarrow>
            t' = t\<lparr>probes := probes t + of_nat (lookup_examined t k ps)\<rparr>) \<and>
         (\<forall>e t'. \<not> CheckResizeRequired cfg t \<longrightarrow> insert_ht n cfg t (Some k) d = Throw e t' \<longrightarrow>
            t' = t\<lparr>probes := probes t + of_nat (slots_examined t ps)\<rparr> \<and>
            slots_examined t ps = length ps)"
    by blast
qed

theorem failing_call_frame_witness:
  "tableSize full_table \<noteq> 0
   \<and> length (table full_table) = unat (tableSize full_table)
   \<and> primary_hash_func (test_config None 2 MARK) ''h'' (tableSize full_table) < tableSize full_table
   \<and> unat (tableSize full_table) + unat (stride_of (test_config None 2 MARK) full_table ''h'') \<le> 2 ^ 32
   \<and> unat (tableSize full_table) \<le> 10
   \<and> \<not> CheckResizeRequired (test_config None 2 MARK) full_table
   \<and> probe_walk 10 7 1 6 6 = Some [6, 0, 1, 2, 3, 4, 5]
   \<and> find_ht 10 (test_config None 2 MARK) full_table (Some ''h'')
       = Throw (E_ITEM_NOT_FOUND, ''Item not found in table.'') (full_table\<lparr>probes := 7\<rparr>)
   \<and> remove_ht 10 (test_config None 2 MARK) full_table (Some ''h'')
       = Throw (E_ITEM_NOT_FOUND, ''Key not in table.'') (full_table\<lparr>probes := 7\<rparr>)
   \<and> insert_ht 10 (test_config None 2 MARK) full_table (Some ''h'') (Some 1)
       = Throw (E_NO_MEMORY, ''Failed to insert item.'') (full_table\<lparr>probes := 7\<rparr>)
   \<and> full_table\<lparr>probes := 7\<rparr>
       = full_table\<lparr>probes := probes full_table
           + of_nat (lookup_examined full_table ''h'' [6, 0, 1, 2, 3, 4, 5])\<rparr>
   \<and> full_table\<lparr>probes := 7\<rparr>
       = full_table\<lparr>probes := probes full_table
           + of_nat (slots_examined full_table [6, 0, 1, 2, 3, 4, 5])\<rparr>
   \<and> CheckResizeRequired (test_config (Some capacity_stride) (1/4) MARK) a_once
   \<and> insert_ht 10 (test_config (Some capacity_stride) (1/4) MARK) a_once (Some ''r'') (Some 2)
       = Throw (E_NO_MEMORY, ''Failed to insert item.'') a_regrown
   \<and> (\<exists>ns. new_size (test_config (Some capacity_stride) (1/4) MARK) a_once = Some ns \<and>
         (resizeTable 9 (test_config (Some capacity_stride) (1/4) MARK) a_once ns
            = Throw (E_NO_MEMORY, ''Failed to insert item.'') a_regrown \<or>
          (\<exists>tg p. resizeTable 9 (test_config (Some capacity_stride) (1/4) MARK) a_once ns = Return () tg \<and>
             a_regrown = tg\<lparr>probes := p\<rparr>)))"
proof -
  let ?C = "test_config None 2 MARK"
  let ?G = "test_config (Some capacity_stride) (1/4) MARK"
  let ?ps = "[6, 0, 1, 2, 3, 4, 5] :: u32 list"
  have 1: "tableSize full_table \<noteq> 0" by code_simp
  have 2: "length (table full_table) = unat (tableSize full_table)" by code_simp
  have 3: "primary_hash_func ?C ''h'' (tableSize full_table) < tableSize full_table" by code_simp
  have h: "primary_hash_func ?C ''h'' 7 = 6" "tableSize full_table = 7"
    "stride_of ?C full_table ''h'' = 1" by code_simp+
  have 4: "unat (tableSize full_table) + unat (stride_of ?C full_table ''h'') \<le> 2 ^ 32"
    by (simp add: h)
  have 5: "unat (tableSize full_table) \<le> 10" by (simp add: h)
  have 6: "\<not> CheckResizeRequired ?C full_table" by code_simp
  have w: "probe_walk 10 7 1 6 6 = Some ?ps" by code_simp
  have f: "find_ht 10 ?C full_table (Some ''h'')
       = Throw (E_ITEM_NOT_FOUND, ''Item not found in table.'') (full_table\<lparr>probes := 7\<rparr>)" by code_simp
  have r: "remove_ht 10 ?C full_table (Some ''h'')
       = Throw (E_ITEM_NOT_FOUND, ''Key not in table.'') (full_table\<lparr>probes := 7\<rparr>)" by code_simp
  have i: "insert_ht 10 ?C full_table (Some ''h'') (Some 1)
       = Throw (E_NO_MEMORY, ''Failed to insert item.'') (full_table\<lparr>probes := 7\<rparr>)" by code_simp
  have g: "CheckResizeRequired ?G a_once" by code_simp
  have gi: "insert_ht 10 ?G a_once (Some ''r'') (Some 2)
       = Throw (E_NO_MEMORY, ''Failed to insert item.'') a_regrown" by code_simp
  have wf: "tableSize full_table \<noteq> 0 \<and> length (table full_table) = unat (tableSize full_table) \<and>
      primary_hash_func ?C ''h'' (tableSize full_table) < tableSize full_table \<and>
      unat (tableSize full_table) + unat (stride_of ?C full_table ''h'') \<le> 2 ^ 32 \<and>
      unat (tableSize full_table) \<le> 10"
    using 1 2 3 4 5 by (intro conjI)
  note T = failing_call_frame[of 10 ?C full_table "Some 1", THEN conjunct2, THEN conjunct2,
      THEN conjunct2, THEN conjunct2, THEN conjunct2, THEN conjunct2, THEN conjunct2,
      THEN spec, THEN mp, OF wf]
  from T obtain ps where
    ps: "probe_walk 10 (tableSize full_table) (stride_of ?C full_table ''h'')
           (primary_hash_func ?C ''h'' (tableSize full_table))
           (primary_hash_func ?C ''h'' (tableSize full_table)) = Some ps"
    and F: "\<forall>e t'. find_ht 10 ?C full_table (Some ''h'') = Throw e t' \<longrightarrow>
            t' = full_table\<lparr>probes := probes full_table + of_nat (lookup_examined full_table ''h'' ps)\<rparr>"
    and I: "\<forall>e t'. \<not> CheckResizeRequired ?C full_table \<longrightarrow>
            insert_ht 10 ?C full_table (Some ''h'') (Some 1) = Throw e t' \<longrightarrow>
            t' = full_table\<lparr>probes := probes full_table + of_nat (slots_examined full_table ps)\<rparr> \<and>
            slots_examined full_table ps = length ps"
    by blast
  from ps w have pe: "ps = ?ps" by (simp only: h) simp
  from F f have a: "full_table\<lparr>probes := 7\<rparr>
       = full_table\<lparr>probes := probes full_table + of_nat (lookup_examined full_table ''h'' ?ps)\<rparr>"
    unfolding pe by blast
  from I 6 i have b: "full_table\<lparr>probes := 7\<rparr>
       = full_table\<lparr>probes := probes full_table + of_nat (slots_examined full_table ?ps)\<rparr>"
    unfolding pe by blast
  from failing_call_frame[of 10 ?G a_once "Some 2", THEN conjunct2, THEN conjunct2,
      THEN conjunct2, THEN conjunct2, THEN conjunct2, THEN conjunct2, THEN conjunct1,
      THEN spec, THEN spec, THEN spec, THEN mp, THEN mp, OF g gi]
  have c: "\<exists>ns. new_size ?G a_once = Some ns \<and>
         (resizeTable 9 ?G a_once ns = Throw (E_NO_MEMORY, ''Failed to insert item.'') a_regrown \<or>
          (\<exists>tg p. resizeTable 9 ?G a_once ns = Return () tg \<and> a_regrown = tg\<lparr>probes := p\<rparr>))"
    by simp
  from 1 2 3 4 5 6 w f r i a b g gi c show ?thesis by (intro conjI)
qed

subsection \<open>C3: the slot that linearProbeInsert fills\<close>

text \<open>
  C3: on a table of capacity other than 0 whose slot array has that capacity, for a
  key whose start index is below the capacity and whose stride does not carry the
  index sum beyond 32 bits, and with fuel for one cycle, the probe sequence from the
  start index is a finite cycle \<open>ps\<close>, and \<open>linearProbeInsert\<close> does what the claim says
  along it: it stops at the first Empty slot, fills the first Deleted slot seen before
  it if there is one and that Empty slot otherwise; when the cycle has no Empty slot
  it fills the first Deleted slot of the cycle; with neither it throws the table-full
  error. It fills one slot, adds one to \<open>count\<close> and adds the number of slots examined
  to \<open>probes\<close>.
\<close>

theorem linearProbeInsert_follows_probe_sequence:
  assumes "tableSize t \<noteq> 0"
    and "length (table t) = unat (tableSize t)"
    and "primary_hash_func cfg k (tableSize t) < tableSize t"
    and "unat (tableSize t) + unat (stride_of cfg t k) \<le> 2 ^ 32"
    and "unat (tableSize t) \<le> n"
  shows "\<exists>ps. probe_walk n (tableSize t) (stride_of cfg t k)
              (primary_hash_func cfg k (tableSize t)) (primary_hash_func cfg k (tableSize t)) = Some ps \<and>
           linearProbeInsert n cfg t k d =
             (case insert_point t ps of
                Some p \<Rightarrow> Return () ((store_slot cfg t p k d)
                            \<lparr>probes := probes t + of_nat (slots_examined t ps)\<rparr>)
              | None \<Rightarrow> Throw (E_NO_MEMORY, ''Failed to insert item.'')
                            (t\<lparr>probes := probes t + of_nat (length ps)\<rparr>))"
proof -
  let ?orig = "primary_hash_func cfg k (tableSize t)"
  from probe_walk_total[OF assms(1,4,3,5)] obtain ps where
    w: "probe_walk n (tableSize t) (stride_of cfg t k) ?orig ?orig = Some ps"
    by blast
  from probe_walk_in_range[OF w assms(1,3)] assms(2)
  have rng: "\<forall>i\<in>set ps. unat i < length (table t)"
    by (simp add: word_less_nat_alt)
  have full: "slots_examined t ps = length ps" if "insert_point t ps = None"
  proof -
    from that have "List.find (\<lambda>i. state_at t i = UNOCCUPIED) ps = None"
      by (simp add: insert_point_def Let_def split: option.splits)
    then have tw: "takeWhile (\<lambda>i. state_at t i \<noteq> UNOCCUPIED) ps = ps"
      by (simp add: find_None_iff takeWhile_eq_all_conv)
    show ?thesis unfolding slots_examined_def tw by simp
  qed
  have "linearProbeInsert n cfg t k d = lpi_spec cfg t k d 0 None ps"
    unfolding linearProbeInsert_def Let_def by (rule lpi_loop_walk[OF assms(1) w rng])
  with w full show ?thesis
    by (auto simp: lpi_spec_def lpi_end_def split: option.splits)
qed

theorem linearProbeInsert_follows_probe_sequence_witness:
  "tableSize tomb_table \<noteq> 0
   \<and> length (table tomb_table) = unat (tableSize tomb_table)
   \<and> primary_hash_func (test_config None (3/4) MARK) ''o'' (tableSize tomb_table) < tableSize tomb_table
   \<and> unat (tableSize tomb_table) + unat (stride_of (test_config None (3/4) MARK) tomb_table ''o'') \<le> 2 ^ 32
   \<and> unat (tableSize tomb_table) \<le> 7
   \<and> probe_walk 7 7 1 6 6 = Some [6, 0, 1, 2, 3, 4, 5]
   \<and> insert_point tomb_table [6, 0, 1, 2, 3, 4, 5] = Some 0
   \<and> linearProbeInsert 7 (test_config None (3/4) MARK) tomb_table ''o'' (Some 9) = Return () tomb_reused"
proof -
  let ?C = "test_config None (3/4) MARK"
  have 1: "tableSize tomb_table \<noteq> 0" by code_simp
  have 2: "length (table tomb_table) = unat (tableSize tomb_table)" by code_simp
  have 3: "primary_hash_func ?C ''o'' (tableSize tomb_table) < tableSize tomb_table" by code_simp
  have h: "primary_hash_func ?C ''o'' 7 = 6" "tableSize tomb_table = 7"
    "stride_of ?C tomb_table ''o'' = 1" by code_simp+
  have 4: "unat (tableSize tomb_table) + unat (stride_of ?C tomb_table ''o'') \<le> 2 ^ 32"
    by (simp add: h)
  have 5: "unat (tableSize tomb_table) \<le> 7" by (simp add: h)
  have w: "probe_walk 7 7 1 6 6 = Some [6, 0, 1, 2, 3, 4, 5]" by code_simp
  have p: "insert_point tomb_table [6, 0, 1, 2, 3, 4, 5] = Some 0" by code_simp
  have e: "(store_slot ?C tomb_table 0 ''o'' (Some 9))
      \<lparr>probes := probes tomb_table + of_nat (slots_examined tomb_table [6, 0, 1, 2, 3, 4, 5])\<rparr> = tomb_reused"
    by code_simp
  from linearProbeInsert_follows_probe_sequence[OF 1 2 3 4 5, of "Some 9"] obtain ps where
    ps: "probe_walk 7 (tableSize tomb_table) (stride_of ?C tomb_table ''o'')
           (primary_hash_func ?C ''o'' (tableSize tomb_table))
           (primary_hash_func ?C ''o'' (tableSize tomb_table)) = Some ps"
    and r: "linearProbeInsert 7 ?C tomb_table ''o'' (Some 9) =
      (case insert_point tomb_table ps of
         Some p \<Rightarrow> Return () ((store_slot ?C tomb_table p ''o'' (Some 9))
                     \<lparr>probes := probes tomb_table + of_nat (slots_examined tomb_table ps)\<rparr>)
       | None \<Rightarrow> Throw (E_NO_MEMORY, ''Failed to insert item.'')
                     (tomb_table\<lparr>probes := probes tomb_table + of_nat (length ps)\<rparr>))"
    by blast
  from ps w have "ps = [6, 0, 1, 2, 3, 4, 5]" by (simp only: h) simp
  with r p e have "linearProbeInsert 7 ?C tomb_table ''o'' (Some 9) = Return () tomb_reused"
    by simp
  with 1 2 3 4 5 w p show ?thesis by blast
qed

subsection \<open>C4: compaction under the Pack policy\<close>

text \<open>
  C4 says that the compaction stops at the last occupied slot before the first Empty
  slot, also when the walk wraps around index 0. \<open>packTable\<close> computes that index as
  \<open>(currentIndex - stride) % tableSize\<close> on unsigned values. When the Empty slot is at
  an index below the stride, the difference wraps to \<open>2^32 - 1\<close> before the remainder
  is taken: with capacity 7, stride 1 and the freed slot 6, the Empty slot 0 gives the
  stopping index 3, not 6. The second loop then takes the Empty slots 0 to 3 for
  entries and reinserts their blank keys: after \<open>remove("a")\<close> on a table that held
  "a" alone, four slots are Occupied, \<open>count\<close> is 0, and the empty key, which was never
  inserted, is found.
\<close>

theorem pack_stopping_index_wraps:
  "pack_first 20 (set_State (release_slot (test_config None (3/4) PACK) a_once 6) 6 UNOCCUPIED) 1 6 6
     = Return 3 (set_State (release_slot (test_config None (3/4) PACK) a_once 6) 6 UNOCCUPIED)
   \<and> remove_ht 20 (test_config None (3/4) PACK) a_once (Some ''a'') = Return () pack_damage
   \<and> length (filter (\<lambda>s. State s = OCCUPIED) (table pack_damage)) = 4
   \<and> count pack_damage = 0
   \<and> find_ht 20 (test_config None (3/4) PACK) pack_damage (Some [])
       = Return None (pack_damage\<lparr>probes := 13\<rparr>)"
  by code_simp

subsection \<open>C5: the load factor after insert\<close>

text \<open>
  The claim is stated for every maximum load factor in (0,1) and every growth factor
  above 1. \<open>insert\<close> tests the load before it grows the table and not after: with a
  maximum load factor of 1/32 and a growth factor of 2, the first insert into a table
  of capacity 7 grows it to 17 slots and leaves a load of 1/17, which exceeds 1/32.
\<close>

theorem one_growth_step_counterexample:
  "0 < max_load_factor (test_config None (1/32) MARK)
   \<and> max_load_factor (test_config None (1/32) MARK) < 1
   \<and> 1 < growth_factor (test_config None (1/32) MARK)
   \<and> insert_ht 10 (test_config None (1/32) MARK) empty7 (Some ''a'') (Some 1) = Return () a_grown
   \<and> \<not> of_nat (unat (count a_grown)) / of_nat (unat (tableSize a_grown))
         \<le> max_load_factor (test_config None (1/32) MARK)
   \<and> \<not> LoadFactor a_grown \<le> max_load_factor (test_config None (1/32) MARK)"
  by code_simp

text \<open>
  C5, as amended: let the slot array of the table have \<open>capacity\<close> slots and \<open>count\<close> be
  the number of its Occupied slots, and let one growth step make room whenever
  \<open>CheckResizeRequired\<close> holds: one entry more than \<open>count\<close>, divided by the capacity
  that \<open>grow_step\<close> gives, is within \<open>max_load_factor\<close>. Then after an \<open>insert\<close> that
  returns, the capacity is not 0 and the load factor that \<open>GetStats\<close> reports, the
  double nearest to the count divided by the capacity, does not exceed
  \<open>max_load_factor\<close>. This covers \<open>max_load_factor = 1\<close>, where the load may reach 1.
  The call has added 1 to \<open>count\<close>; when \<open>CheckResizeRequired\<close> held it has grown the
  capacity by one growth step and added 1 to \<open>expansions\<close>, and otherwise it has left
  both as they were.
\<close>

theorem load_factor_after_insert:
  assumes ret: "insert_ht n cfg t (Some k) d = Return u t'"
    and len: "length (table t) = unat (tableSize t)"
    and cnt: "unat (count t) = occupied_count (table t)"
    and room: "CheckResizeRequired cfg t \<longrightarrow> room_after_growth cfg t"
  shows "tableSize t' \<noteq> 0 \<and> LoadFactor t' \<le> max_load_factor cfg \<and>
         count t' = count t + 1 \<and>
         tableSize t' = (if CheckResizeRequired cfg t then grow_step cfg (tableSize t) else tableSize t) \<and>
         expansions t' = (if CheckResizeRequired cfg t then expansions t + 1 else expansions t)"
proof -
  from ret obtain n' where n: "n = Suc n'" by (cases n) auto
  show ?thesis
  proof (cases "CheckResizeRequired cfg t")
    case False
    with ret n have l: "linearProbeInsert n cfg t k d = Return u t'" by simp
    from linearProbeInsert_Return[OF l] obtain p q where
      t': "t' = (store_slot cfg t p k d)\<lparr>probes := q\<rparr>" and p: "unat p < length (table t)"
      by blast
    from p len have m0: "tableSize t \<noteq> 0" by auto
    have ct: "count t' = count t + 1" and mt: "tableSize t' = tableSize t"
      and et: "expansions t' = expansions t"
      by (simp_all add: t' store_slot_def)
    have "LoadFactor t' \<le> max_load_factor cfg"
    proof (cases "max_load_factor cfg = 1")
      case mlf: False
      with False m0 show ?thesis
        by (simp add: CheckResizeRequired_def LoadFactor_def ct mt)
    next
      case mlf: True
      with False have "count t \<noteq> tableSize t" by (simp add: CheckResizeRequired_def)
      then have "unat (count t) \<noteq> unat (tableSize t)" by (simp add: word_unat_eq_iff)
      moreover from cnt len occupied_count_le[of "table t"] have "unat (count t) \<le> unat (tableSize t)"
        by simp
      ultimately have lt: "unat (count t) < unat (tableSize t)" by simp
      have "unat (tableSize t) < 2 ^ LENGTH(32)" by (rule unsigned_less)
      with lt have "unat (count t) + 1 < 2 ^ LENGTH(32)" by simp
      then have u: "unat (count t + 1) = Suc (unat (count t))"
        by (simp add: unat_add_lem[THEN iffD1])
      from lt have "Suc (unat (count t)) \<le> unat (tableSize t)" by simp
      then have "to_double (of_nat (Suc (unat (count t))) / of_nat (unat (tableSize t))) \<le> 1"
        by (rule to_double_ratio_le_one)
      with mlf show ?thesis by (simp add: LoadFactor_def ct mt u)
    qed
    with m0 mt ct et False show ?thesis by simp
  next
    case True
    let ?M = "grow_step cfg (tableSize t)"
    let ?c = "unat (count t)"
    from True room have M: "?M \<noteq> 0"
      and rm: "to_double (of_nat (Suc ?c) / of_nat (unat ?M)) \<le> max_load_factor cfg"
      by (simp_all add: room_after_growth_def Let_def)
    from ret n True obtain ns tg where ns: "new_size cfg t = Some ns"
      and r: "rehash_loop n' cfg (table t) [0 ..< unat (tableSize t)] (alloc_table cfg t ns) = Return () tg"
      and l: "linearProbeInsert n cfg tg k d = Return u t'"
      by (auto split: option.splits outcome.splits)
    have ma: "tableSize (alloc_table cfg t ns) = ?M" by (rule alloc_grow_step[OF ns])
    have ca: "count (alloc_table cfg t ns) = 0" by (simp add: alloc_table_def Let_def)
    have c32: "?c < 2 ^ 32" using unsigned_less[of "count t", where 'a = nat] by simp
    have occ: "length (filter (\<lambda>i. State (table t ! i) = OCCUPIED) [0 ..< unat (tableSize t)]) = ?c"
      using occupied_count_indices[of "table t"] len cnt by simp
    have ea: "expansions (alloc_table cfg t ns) = expansions t + 1"
      by (simp add: alloc_table_def Let_def)
    have "tableSize tg = ?M \<and> expansions tg = expansions (alloc_table cfg t ns) \<and>
      unat (count tg) = unat (count (alloc_table cfg t ns)) +
        length (filter (\<lambda>i. State (table t ! i) = OCCUPIED) [0 ..< unat (tableSize t)])"
    proof (rule rehash_loop_no_growth[OF _ c32 r ma])
      fix t1 :: "'a OAHashTable"
      assume "tableSize t1 = ?M" "unat (count t1) < ?c"
      then show "\<not> CheckResizeRequired cfg t1" by (rule room_no_growth[OF M rm c32])
    next
      show "unat (count (alloc_table cfg t ns)) +
        length (filter (\<lambda>i. State (table t ! i) = OCCUPIED) [0 ..< unat (tableSize t)]) \<le> ?c"
        by (simp add: ca occ)
    qed
    then have mg: "tableSize tg = ?M" and cg: "unat (count tg) = ?c"
      and eg: "expansions tg = expansions t + 1" by (simp_all add: ca occ ea)
    from cg have cge: "count tg = count t" by (simp only: word_unat_eq_iff)
    from linearProbeInsert_Return[OF l] obtain p q where
      t': "t' = (store_slot cfg tg p k d)\<lparr>probes := q\<rparr>"
      by blast
    have ct: "count t' = count tg + 1" and mt: "tableSize t' = ?M"
      and et: "expansions t' = expansions t + 1"
      by (simp_all add: t' store_slot_def mg eg)
    have "LoadFactor t' \<le> max_load_factor cfg"
    proof (cases "?c + 1 < 2 ^ 32")
      case True
      then have "unat (count tg) + 1 < 2 ^ LENGTH(32)" by (simp add: cg)
      then have "unat (count tg + 1) = Suc ?c"
        by (simp add: unat_add_lem[THEN iffD1] cg)
      with rm show ?thesis by (simp add: LoadFactor_def ct mt)
    next
      case False
      with c32 have "?c = 2 ^ 32 - 1" by simp
      moreover have "unat (- 1 :: u32) = 2 ^ 32 - 1"
        by (simp add: unsigned_minus_1_eq_mask mask_eq_exp_minus_1)
      ultimately have "unat (count tg) = unat (- 1 :: u32)" by (simp only: cg)
      then have "count tg = - 1" by (simp only: word_unat_eq_iff)
      then have z: "count t' = 0" by (simp add: ct)
      have "0 \<le> to_double (of_nat (Suc ?c) / of_nat (unat ?M))"
        by (rule to_double_ratio_nonneg)
      with rm have "0 \<le> max_load_factor cfg" by simp
      then show ?thesis by (simp add: LoadFactor_def z to_double_def)
    qed
    with M mt ct cge et True show ?thesis by simp
  qed
qed

theorem load_factor_after_insert_witness:
  "insert_ht 10 (test_config None (7/10) MARK) four_keys (Some ''e'') (Some 5) = Return () five_keys
   \<and> length (table four_keys) = unat (tableSize four_keys)
   \<and> unat (count four_keys) = occupied_count (table four_keys)
   \<and> CheckResizeRequired (test_config None (7/10) MARK) four_keys
   \<and> room_after_growth (test_config None (7/10) MARK) four_keys
   \<and> tableSize five_keys \<noteq> 0
   \<and> LoadFactor five_keys \<le> max_load_factor (test_config None (7/10) MARK)
   \<and> count five_keys = count four_keys + 1
   \<and> tableSize five_keys = grow_step (test_config None (7/10) MARK) (tableSize four_keys)
   \<and> expansions five_keys = expansions four_keys + 1"
proof -
  let ?C = "test_config None (7/10) MARK"
  have 1: "insert_ht 10 ?C four_keys (Some ''e'') (Some 5) = Return () five_keys" by code_simp
  have 2: "length (table four_keys) = unat (tableSize four_keys)" by code_simp
  have 3: "unat (count four_keys) = occupied_count (table four_keys)" by code_simp
  have 4: "CheckResizeRequired ?C four_keys" by code_simp
  have 5: "room_after_growth ?C four_keys" by code_simp
  from 5 have r: "CheckResizeRequired ?C four_keys \<longrightarrow> room_after_growth ?C four_keys" by simp
  have 6: "tableSize five_keys \<noteq> 0 \<and> LoadFactor five_keys \<le> max_load_factor ?C \<and>
        count five_keys = count four_keys + 1 \<and>
        tableSize five_keys = grow_step ?C (tableSize four_keys) \<and>
        expansions five_keys = expansions four_keys + 1"
    by (rule load_factor_after_insert[OF 1 2 3 r, unfolded if_P[OF 4]])
  from 1 2 3 4 5 6 show ?thesis by blast
qed

subsection \<open>C6: when insert grows the table\<close>

text \<open>
  The claim compares the exact quotient \<open>(count + 1) / capacity\<close> with
  \<open>max_load_factor\<close>; the program compares the double nearest to it. With a maximum
  load factor of \<open>3.0 / 7.0\<close>, which lies below 3/7, a table of capacity 7 that holds
  two keys takes a third without growing, although 3/7 exceeds the maximum load
  factor.
\<close>

theorem growth_test_rounds_counterexample:
  "insert_all 10 (test_config None (3/7) MARK) empty7 [(''a'', 1), (''b'', 2)] = Return () two_keys
   \<and> max_load_factor (test_config None (3/7) MARK) \<noteq> 1
   \<and> (of_nat (unat (count two_keys)) + 1) / of_nat (unat (tableSize two_keys))
        > max_load_factor (test_config None (3/7) MARK)
   \<and> insert_ht 10 (test_config None (3/7) MARK) two_keys (Some ''c'') (Some 3) = Return () three_keys
   \<and> tableSize three_keys = tableSize two_keys
   \<and> expansions three_keys = expansions two_keys"
  by code_simp

text \<open>
  C6, as amended: for an \<open>insert\<close> with a key and a maximum load factor that is a
  double, growth is performed before probing exactly when \<open>CheckResizeRequired\<close> holds:
  \<open>max_load_factor == 1\<close> and \<open>count == capacity\<close>, or otherwise when the double nearest
  to the quotient of the unsigned sum \<open>count + 1\<close> by the capacity exceeds
  \<open>max_load_factor\<close>. On a table of capacity other than 0 whose count is not the
  largest unsigned value, this test implies the condition of the claim, and the
  condition of the claim implies the test unless the quotient rounds to
  \<open>max_load_factor\<close> itself; when the count is the largest unsigned value, the sum is 0
  and the test holds only for a negative \<open>max_load_factor\<close>. When the test holds,
  \<open>insert\<close> is \<open>resizeTable\<close> followed by the probe of the grown table (or the failure
  of \<open>resizeTable\<close>); when it does not, \<open>insert\<close> is the probe of the table as it is.
  Whether \<open>insert\<close> returns or throws, the capacity has been grown \<open>j\<close> times and
  \<open>expansions\<close> has advanced by \<open>j\<close>, where \<open>j\<close> is at least 1 in the first case and 0
  in the second.
\<close>

theorem growth_exactly_when_required:
  assumes "to_double (max_load_factor cfg) = max_load_factor cfg"
  shows "(tableSize t \<noteq> 0 \<and> count t + 1 \<noteq> 0 \<longrightarrow>
            (CheckResizeRequired cfg t \<longrightarrow> spec_growth_required cfg t) \<and>
            (spec_growth_required cfg t \<and> \<not> CheckResizeRequired cfg t \<longrightarrow>
               max_load_factor cfg \<noteq> 1 \<and>
               to_double ((of_nat (unat (count t)) + 1) / of_nat (unat (tableSize t))) = max_load_factor cfg)) \<and>
         (tableSize t \<noteq> 0 \<and> count t + 1 = 0 \<and> max_load_factor cfg \<noteq> 1 \<longrightarrow>
            (CheckResizeRequired cfg t \<longleftrightarrow> max_load_factor cfg < 0)) \<and>
         (CheckResizeRequired cfg t \<longrightarrow>
            insert_ht (Suc n) cfg t (Some k) d =
              (case new_size cfg t of
                 None \<Rightarrow> UndefinedBehaviour
               | Some newSize \<Rightarrow>
                   (case resizeTable n cfg t newSize of
                      Return u tg \<Rightarrow> linearProbeInsert (Suc n) cfg tg k d
                    | Throw e tg \<Rightarrow> Throw e tg
                    | UndefinedBehaviour \<Rightarrow> UndefinedBehaviour
                    | OutOfFuel \<Rightarrow> OutOfFuel))) \<and>
         (\<not> CheckResizeRequired cfg t \<longrightarrow>
            insert_ht (Suc n) cfg t (Some k) d = linearProbeInsert (Suc n) cfg t k d) \<and>
         ends_with (insert_ht (Suc n) cfg t (Some k) d)
           (\<lambda>t'. \<exists>j. tableSize t' = (grow_step cfg ^^ j) (tableSize t) \<and>
                      expansions t' = expansions t + of_nat j \<and>
                      (CheckResizeRequired cfg t \<longrightarrow> 0 < j) \<and>
                      (\<not> CheckResizeRequired cfg t \<longrightarrow> j = 0))"
proof (intro conjI)
  show "tableSize t \<noteq> 0 \<and> count t + 1 \<noteq> 0 \<longrightarrow>
            (CheckResizeRequired cfg t \<longrightarrow> spec_growth_required cfg t) \<and>
            (spec_growth_required cfg t \<and> \<not> CheckResizeRequired cfg t \<longrightarrow>
               max_load_factor cfg \<noteq> 1 \<and>
               to_double ((of_nat (unat (count t)) + 1) / of_nat (unat (tableSize t))) = max_load_factor cfg)"
  proof (intro impI, elim conjE)
    assume m0: "tableSize t \<noteq> 0" and nw: "count t + 1 \<noteq> 0"
    define q :: rat where "q = (of_nat (unat (count t)) + 1) / of_nat (unat (tableSize t))"
    from nw have "unat (count t + 1) = Suc (unat (count t))"
      using unatSuc[of "count t"] by (simp add: add.commute)
    then have "(of_nat (unat (count t + 1)) :: rat) = of_nat (unat (count t)) + 1"
      by (simp only: of_nat_Suc)
    then have qd: "of_nat (unat (count t + 1)) / of_nat (unat (tableSize t)) = q"
      by (simp only: q_def)
    have q0: "0 \<le> q" unfolding q_def
      by (intro divide_nonneg_nonneg add_nonneg_nonneg of_nat_0_le_iff zero_le_one)
    have chk: "CheckResizeRequired cfg t \<longleftrightarrow>
        (if max_load_factor cfg = 1 then count t = tableSize t else max_load_factor cfg < to_double q)"
      unfolding CheckResizeRequired_def qd using m0 by simp
    have spc: "spec_growth_required cfg t \<longleftrightarrow>
        (if max_load_factor cfg = 1 then count t = tableSize t else max_load_factor cfg < q)"
      unfolding spec_growth_required_def q_def by simp
    have sound: "max_load_factor cfg < q" if "max_load_factor cfg < to_double q"
    proof (rule ccontr)
      assume "\<not> max_load_factor cfg < q"
      then have "q \<le> max_load_factor cfg" by simp
      from to_double_mono[OF q0 this] assms that show False by simp
    qed
    have near: "to_double q = max_load_factor cfg"
      if "max_load_factor cfg < q" "\<not> max_load_factor cfg < to_double q"
    proof (cases "0 \<le> max_load_factor cfg")
      case True
      from that(1) have "max_load_factor cfg \<le> q" by simp
      from to_double_mono[OF True this] assms that(2) show ?thesis by simp
    next
      case False
      with to_double_nonneg[OF q0] that(2) show ?thesis by simp
    qed
    show "(CheckResizeRequired cfg t \<longrightarrow> spec_growth_required cfg t) \<and>
            (spec_growth_required cfg t \<and> \<not> CheckResizeRequired cfg t \<longrightarrow>
               max_load_factor cfg \<noteq> 1 \<and>
               to_double ((of_nat (unat (count t)) + 1) / of_nat (unat (tableSize t))) = max_load_factor cfg)"
      unfolding chk spc q_def[symmetric] using sound near by (auto split: if_splits)
  qed
next
  show "tableSize t \<noteq> 0 \<and> count t + 1 = 0 \<and> max_load_factor cfg \<noteq> 1 \<longrightarrow>
            (CheckResizeRequired cfg t \<longleftrightarrow> max_load_factor cfg < 0)"
    by (simp add: CheckResizeRequired_def to_double_def)
next
  show "CheckResizeRequired cfg t \<longrightarrow>
            insert_ht (Suc n) cfg t (Some k) d =
              (case new_size cfg t of
                 None \<Rightarrow> UndefinedBehaviour
               | Some newSize \<Rightarrow>
                   (case resizeTable n cfg t newSize of
                      Return u tg \<Rightarrow> linearProbeInsert (Suc n) cfg tg k d
                    | Throw e tg \<Rightarrow> Throw e tg
                    | UndefinedBehaviour \<Rightarrow> UndefinedBehaviour
                    | OutOfFuel \<Rightarrow> OutOfFuel))"
    by (simp add: resizeTable_def split: option.splits)
next
  show "\<not> CheckResizeRequired cfg t \<longrightarrow>
            insert_ht (Suc n) cfg t (Some k) d = linearProbeInsert (Suc n) cfg t k d"
    by simp
next
  let ?Q = "\<lambda>t'. \<exists>j. tableSize t' = (grow_step cfg ^^ j) (tableSize t) \<and>
                      expansions t' = expansions t + of_nat j \<and>
                      (CheckResizeRequired cfg t \<longrightarrow> 0 < j) \<and>
                      (\<not> CheckResizeRequired cfg t \<longrightarrow> j = 0)"
  show "ends_with (insert_ht (Suc n) cfg t (Some k) d) ?Q"
  proof (cases "CheckResizeRequired cfg t")
    case False
    have "ends_with (linearProbeInsert (Suc n) cfg t k d) ?Q"
      by (rule ends_with_mono[OF lpi_same_capacity]) (use False in \<open>auto intro: exI[of _ 0]\<close>)
    with False show ?thesis by simp
  next
    case True
    show ?thesis
    proof (cases "new_size cfg t")
      case None
      with True show ?thesis by simp
    next
      case (Some ns)
      let ?a = "alloc_table cfg t ns"
      have step: "?Q b" if "\<exists>j. tableSize b = (grow_step cfg ^^ j) (tableSize ?a) \<and>
            expansions b = expansions ?a + of_nat j" for b
      proof -
        from that obtain j where "tableSize b = (grow_step cfg ^^ j) (tableSize ?a)"
          "expansions b = expansions ?a + of_nat j" by blast
        with alloc_grow_step[OF Some]
        have "tableSize b = (grow_step cfg ^^ Suc j) (tableSize t) \<and>
              expansions b = expansions t + of_nat (Suc j)"
          by (simp add: funpow_swap1 alloc_table_def Let_def)
        with True show ?thesis by blast
      qed
      have reh: "ends_with (rehash_loop n cfg (table t) [0 ..< unat (tableSize t)] ?a) ?Q"
        by (rule ends_with_mono[OF growth_steps_rel(2)]) (rule step)
      show ?thesis
      proof (cases "rehash_loop n cfg (table t) [0 ..< unat (tableSize t)] ?a")
        case (Return u tg)
        with reh have q: "?Q tg" by simp
        have "ends_with (linearProbeInsert (Suc n) cfg tg k d) ?Q"
          by (rule ends_with_mono[OF lpi_same_capacity]) (use q in auto)
        with True Some Return show ?thesis by simp
      next
        case (Throw e tg)
        with reh True Some show ?thesis by simp
      qed (use True Some in simp_all)
    qed
  qed
qed

theorem growth_exactly_when_required_witness:
  "to_double (max_load_factor (test_config None (7/10) MARK)) = max_load_factor (test_config None (7/10) MARK)
   \<and> tableSize four_keys \<noteq> 0 \<and> count four_keys + 1 \<noteq> 0
   \<and> CheckResizeRequired (test_config None (7/10) MARK) four_keys
   \<and> spec_growth_required (test_config None (7/10) MARK) four_keys
   \<and> insert_ht (Suc 9) (test_config None (7/10) MARK) four_keys (Some ''e'') (Some 5) = Return () five_keys
   \<and> (\<exists>j. 0 < j
          \<and> tableSize five_keys = (grow_step (test_config None (7/10) MARK) ^^ j) (tableSize four_keys)
          \<and> expansions five_keys = expansions four_keys + of_nat j)"
proof -
  let ?C = "test_config None (7/10) MARK"
  have 0: "to_double (max_load_factor ?C) = max_load_factor ?C" by code_simp
  have 1: "tableSize four_keys \<noteq> 0" by code_simp
  have 2: "count four_keys + 1 \<noteq> 0" by code_simp
  have 3: "CheckResizeRequired ?C four_keys" by code_simp
  have 4: "insert_ht (Suc 9) ?C four_keys (Some ''e'') (Some 5) = Return () five_keys" by code_simp
  note g = growth_exactly_when_required[OF 0, of four_keys 9 "''e''" "Some 5"]
  from g 1 2 3 have 5: "spec_growth_required ?C four_keys" by blast
  from g 3 4
  have "\<exists>j. 0 < j \<and> tableSize five_keys = (grow_step ?C ^^ j) (tableSize four_keys)
          \<and> expansions five_keys = expansions four_keys + of_nat j"
    by auto
  with 0 1 2 3 4 5 show ?thesis by blast
qed

subsection \<open>C7: the error codes of a null key\<close>

text \<open>
  The claim says that the error of \<open>insert\<close> on a null key differs in kind from the
  error of a full table. In the source both are raised with the code \<open>E_NO_MEMORY\<close>
  and differ in their message only: on a full table (a load factor of 2 never asks
  for growth) the two calls throw the same code.
\<close>

text \<open>
  C7, as amended: \<open>insert\<close> on a null key throws \<open>E_NO_MEMORY\<close> with the message
  "Key cannot be null."; \<open>remove\<close> and \<open>find\<close> on a null key throw
  \<open>E_ITEM_NOT_FOUND\<close>; the two codes differ; each of the three leaves the table as it
  was, whatever the fuel. The failure of the probe for want of a slot has the code
  \<open>E_NO_MEMORY\<close> too, with the message "Failed to insert item.".
\<close>

theorem null_key_error_codes:
  "insert_ht n cfg t None d = Throw (E_NO_MEMORY, ''Key cannot be null.'') t \<and>
   remove_ht n cfg t None = Throw (E_ITEM_NOT_FOUND, ''Key not in table.'') t \<and>
   find_ht n cfg t None = Throw (E_ITEM_NOT_FOUND, ''Key cannot be null.'') t \<and>
   E_NO_MEMORY \<noteq> E_ITEM_NOT_FOUND \<and>
   (\<forall>e t'. linearProbeInsert n cfg t k d = Throw e t' \<longrightarrow> e = (E_NO_MEMORY, ''Failed to insert item.''))"
  using linearProbeInsert_Throw[of n cfg t k d] by auto

theorem null_key_error_codes_witness:
  "linearProbeInsert 10 (test_config None 2 MARK) full_table ''h'' (Some 1)
     = Throw (E_NO_MEMORY, ''Failed to insert item.'') (full_table\<lparr>probes := 7\<rparr>)
   \<and> insert_ht 10 (test_config None 2 MARK) full_table None (Some 1)
     = Throw (E_NO_MEMORY, ''Key cannot be null.'') full_table"
proof -
  have "linearProbeInsert 10 (test_config None 2 MARK) full_table ''h'' (Some 1)
     = Throw (E_NO_MEMORY, ''Failed to insert item.'') (full_table\<lparr>probes := 7\<rparr>)"
    by code_simp
  with null_key_error_codes[of 10 "test_config None 2 MARK" full_table "Some 1" "''h''"]
  show ?thesis by simp
qed

theorem null_key_same_code_as_full_counterexample:
  "insert_ht 10 (test_config None 2 MARK) full_table None (Some 1)
     = Throw (E_NO_MEMORY, ''Key cannot be null.'') full_table
   \<and> insert_ht 10 (test_config None 2 MARK) full_table (Some ''h'') (Some 1)
     = Throw (E_NO_MEMORY, ''Failed to insert item.'') (full_table\<lparr>probes := 7\<rparr>)"
  by code_simp

subsection \<open>C8: growth releases no value\<close>

text \<open>
  C8: \<open>resizeTable\<close> never calls the release callback: whether it returns or throws,
  and whatever the table holds, the log of released values is the one before the
  call. The values are copied: when \<open>resizeTable\<close> returns, on a table whose slot array
  has the length \<open>tableSize\<close>, every pair of a (truncated) key and a value is held by as
  many occupied slots of the new array as of the old one.
\<close>

theorem resize_releases_nothing:
  "(resizeTable n cfg t newSize = Return u t' \<longrightarrow> released t' = released t) \<and>
   (resizeTable n cfg t newSize = Throw e t' \<longrightarrow> released t' = released t) \<and>
   (resizeTable n cfg t newSize = Return u t' \<longrightarrow> length (table t) = unat (tableSize t) \<longrightarrow>
      (\<forall>k v. occurrences cfg (table t') k v = occurrences cfg (table t) k v))"
proof -
  have "ends_with (rehash_loop n cfg (table t) [0 ..< unat (tableSize t)] (alloc_table cfg t newSize))
          (\<lambda>t'. released t' = released (alloc_table cfg t newSize))"
    by (rule insert_rehash_rel(2)[where R = "\<lambda>a b. released b = released a"])
       (auto simp: alloc_table_def Let_def store_slot_def intro!: lpi_ends_with)
  then have log: "(resizeTable n cfg t newSize = Return u t' \<longrightarrow> released t' = released t) \<and>
      (resizeTable n cfg t newSize = Throw e t' \<longrightarrow> released t' = released t)"
    by (auto simp: resizeTable_def alloc_table_def Let_def)
  have copy: "occurrences cfg (table t') k v = occurrences cfg (table t) k v"
    if r: "resizeTable n cfg t newSize = Return u t'" and len: "length (table t) = unat (tableSize t)"
    for k v
  proof -
    from r have "rehash_loop n cfg (table t) [0 ..< unat (tableSize t)] (alloc_table cfg t newSize)
        = Return u t'"
      by (simp add: resizeTable_def)
    from insert_rehash_occurrences(2)[OF this length_alloc]
    have "occurrences cfg (table t') k v =
        length (filter (\<lambda>i. State (table t ! i) = OCCUPIED \<and>
          take (MAX_KEYLEN cfg - 1) (Key (table t ! i)) = k \<and> data (table t ! i) = v)
          [0 ..< unat (tableSize t)])"
      by (simp add: occurrences_alloc)
    also have "\<dots> = occurrences cfg (table t) k v"
      using occurrences_indices[of "table t" cfg k v] len by simp
    finally show ?thesis .
  qed
  from log copy show ?thesis by blast
qed

theorem resize_releases_nothing_witness:
  "resizeTable 9 (test_config None (7/10) MARK) four_keys 14 = Return () four_keys_grown
   \<and> length (table four_keys) = unat (tableSize four_keys)
   \<and> released four_keys_grown = released four_keys
   \<and> occurrences (test_config None (7/10) MARK) (table four_keys_grown) ''c'' (Some 3)
       = occurrences (test_config None (7/10) MARK) (table four_keys) ''c'' (Some 3)"
proof -
  have 1: "resizeTable 9 (test_config None (7/10) MARK) four_keys 14 = Return () four_keys_grown"
    by code_simp
  have 2: "length (table four_keys) = unat (tableSize four_keys)" by code_simp
  from resize_releases_nothing[of 9 "test_config None (7/10) MARK" four_keys 14 "()" four_keys_grown] 1 2
  show ?thesis by blast
qed

subsection \<open>C9: remove with a key that is stored twice\<close>

text \<open>
  The claim is stated for every table with two occupied slots of the same key. Under
  the Pack policy with a secondary hash function, the compaction after a removal
  walks by the stride of the removed key only. From the empty table, the inserts of
  "b", "cxx", "d" and "b" again fill the slots 0, 1, 2 and 3; the removal of "cxx"
  (stride 3) empties slot 1 and moves nothing; the removal of "b" empties slot 0 and
  moves nothing. The second "b" is still in slot 3, and \<open>find\<close> stops at the empty
  slot 0: not found.
\<close>

theorem pack_strands_duplicate_counterexample:
  "insert_all 10 (test_config (Some length_hash) (3/4) PACK) empty7
       [(''b'', 1), (''cxx'', 2), (''d'', 3), (''b'', 4)] = Return () dup_four
   \<and> remove_ht 10 (test_config (Some length_hash) (3/4) PACK) dup_four (Some ''cxx'') = Return () dup_three
   \<and> holds_key dup_three ''b'' 0 \<and> holds_key dup_three ''b'' 3
   \<and> remove_ht 10 (test_config (Some length_hash) (3/4) PACK) dup_three (Some ''b'') = Return () dup_two
   \<and> holds_key dup_two ''b'' 3
   \<and> find_ht 10 (test_config (Some length_hash) (3/4) PACK) dup_two (Some ''b'')
       = Throw (E_ITEM_NOT_FOUND, ''Item not found in table.'') (dup_two\<lparr>probes := 10\<rparr>)"
  by code_simp

text \<open>
  C9, as amended: under the Mark policy, when the probe sequence of the key reaches an
  occupied slot \<open>i\<close> with the key and, further on and before any Empty slot, a second
  occupied slot \<open>j\<close> with the key, \<open>remove\<close> returns; the slot array differs in slot
  \<open>i\<close> only, which is a tombstone; \<open>count\<close> is one less; slot \<open>j\<close> is still occupied with
  the key, and a \<open>find\<close> of the key returns the value of slot \<open>j\<close>.
\<close>

theorem remove_first_of_two:
  assumes "deletion_policy cfg = MARK" and "tableSize t \<noteq> 0"
    and "probe_walk n (tableSize t) (stride_of cfg t k)
           (primary_hash_func cfg k (tableSize t)) (primary_hash_func cfg k (tableSize t))
         = Some (xs @ i # ys @ j # zs)"
    and "list_all (skipped t k) xs" and "holds_key t k i"
    and "list_all (skipped t k) ys" and "holds_key t k j" and "i \<noteq> j"
  shows "\<exists>t1. remove_ht n cfg t (Some k) = Return () t1 \<and>
           table t1 = mark_deleted cfg t i \<and> count t1 = count t - 1 \<and> tableSize t1 = tableSize t \<and>
           holds_key t1 k j \<and>
           (\<exists>p. find_ht n cfg t1 (Some k) = Return (data (table t ! unat j)) (t1\<lparr>probes := p\<rparr>))"
proof -
  let ?orig = "primary_hash_func cfg k (tableSize t)"
  let ?s = "stride_of cfg t k"
  let ?m = "(set_State (release_slot cfg t i) i DELETED)\<lparr>count := count (release_slot cfg t i) - 1\<rparr>"
  let ?t1 = "?m\<lparr>probes := probes ?m + (0 + of_nat (length xs) + 1)\<rparr>"
  from assms(5) have irng: "unat i < length (table t)" by (simp add: holds_key_def)
  have rl: "remove_loop n cfg t k ?orig ?s ?orig 0 = Return (True, 0 + of_nat (length xs) + 1) ?m"
    by (rule remove_loop_walk[OF assms(2,1,3,4,5)])
  then have rem: "remove_ht n cfg t (Some k) = Return () ?t1"
    by (simp add: Let_def)
  note tab0 = table_marked[OF irng, of cfg]
  have tab: "table ?t1 = mark_deleted cfg t i"
    using tab0 by simp
  have cnt: "count ?t1 = count t - 1" and sz: "tableSize ?t1 = tableSize t"
    by (simp_all add: marked_other)
  from assms(8) have ne: "unat x \<noteq> unat i" if "x = j" for x
    using that by (simp add: word_unat_eq_iff)
  have keep_skipped: "skipped ?t1 k x" if "skipped t k x" for x
  proof (cases "unat x = unat i")
    case True
    with that assms(5) show ?thesis by (simp add: skipped_def holds_key_def state_at_def)
  next
    case False
    with that show ?thesis
      by (simp add: skipped_def state_at_def tab0 mark_deleted_def)
  qed
  have i_skipped: "skipped ?t1 k i"
    using irng by (simp add: skipped_def state_at_def tab0 mark_deleted_def)
  have j_holds: "holds_key ?t1 k j"
    using assms(7) ne[of j] by (simp add: holds_key_def state_at_def tab0 mark_deleted_def)
  have pre: "list_all (skipped ?t1 k) (xs @ i # ys)"
    using assms(4,6) keep_skipped i_skipped by (auto simp: list_all_iff)
  have st: "stride_of cfg ?t1 k = ?s"
    by (auto simp: stride_of_def marked_other split: option.splits)
  from assms(3) have w: "probe_walk n (tableSize ?t1) ?s ?orig ?orig = Some ((xs @ i # ys) @ j # zs)"
    by (simp add: marked_other)
  from assms(2) have nz: "tableSize ?t1 \<noteq> 0" by (simp add: marked_other)
  have fl: "find_loop n ?t1 k ?orig ?s ?orig (probes ?t1) =
      FindEnd True j (probes ?t1 + of_nat (length (xs @ i # ys)) + 1)"
    by (rule find_loop_walk[OF nz w pre j_holds])
  from j_holds have jr: "slot_at ?t1 j = Some (table ?t1 ! unat j)"
    by (simp add: holds_key_def slot_at_def)
  from assms(7) ne[of j] have dj: "data (table ?t1 ! unat j) = data (table t ! unat j)"
    by (simp add: tab0 mark_deleted_def holds_key_def)
  from fl jr dj st sz
  have "\<exists>p. find_ht n cfg ?t1 (Some k) = Return (data (table t ! unat j)) (?t1\<lparr>probes := p\<rparr>)"
    by (auto simp: Let_def marked_other)
  with rem tab cnt sz j_holds show ?thesis by blast
qed

theorem remove_first_of_two_witness:
  "deletion_policy (test_config None (3/4) MARK) = MARK \<and> tableSize a_twice \<noteq> 0
   \<and> probe_walk 7 (tableSize a_twice) (stride_of (test_config None (3/4) MARK) a_twice ''a'')
        (primary_hash_func (test_config None (3/4) MARK) ''a'' (tableSize a_twice))
        (primary_hash_func (test_config None (3/4) MARK) ''a'' (tableSize a_twice))
      = Some ([] @ 6 # [] @ 0 # [1, 2, 3, 4, 5])
   \<and> holds_key a_twice ''a'' 6 \<and> holds_key a_twice ''a'' 0 \<and> (6 :: u32) \<noteq> 0
   \<and> remove_ht 7 (test_config None (3/4) MARK) a_twice (Some ''a'') = Return () a_marked
   \<and> (\<exists>p. find_ht 7 (test_config None (3/4) MARK) a_marked (Some ''a'')
          = Return (Some 2) (a_marked\<lparr>probes := p\<rparr>))"
proof -
  let ?C = "test_config None (3/4) MARK"
  have 1: "deletion_policy ?C = MARK" by code_simp
  have 2: "tableSize a_twice \<noteq> 0" by code_simp
  have 3: "probe_walk 7 (tableSize a_twice) (stride_of ?C a_twice ''a'')
        (primary_hash_func ?C ''a'' (tableSize a_twice)) (primary_hash_func ?C ''a'' (tableSize a_twice))
      = Some ([] @ 6 # [] @ 0 # [1, 2, 3, 4, 5])" by code_simp
  have 4: "list_all (skipped a_twice ''a'') []" by simp
  have 5: "holds_key a_twice ''a'' 6" by code_simp
  have 7: "holds_key a_twice ''a'' 0" by code_simp
  have 8: "(6 :: u32) \<noteq> 0" by simp
  have r: "remove_ht 7 ?C a_twice (Some ''a'') = Return () a_marked" by code_simp
  have d: "data (table a_twice ! unat (0 :: u32)) = Some 2" by code_simp
  from remove_first_of_two[OF 1 2 3 4 5 4 7 8] r d
  have "\<exists>p. find_ht 7 ?C a_marked (Some ''a'') = Return (Some 2) (a_marked\<lparr>probes := p\<rparr>)"
    by auto
  with 1 2 3 5 7 8 r show ?thesis by blast
qed

subsection \<open>C10: keys longer than the key buffer\<close>

text \<open>
  The claim says that two keys with the same first \<open>MAX_KEYLEN - 1\<close> characters are
  found alike. \<open>find\<close> compares the stored, truncated key with the whole key it is
  given, so a key of 36 characters is stored as its first 31 characters, and neither
  that key nor another key of 32 characters with the same first 31 is found.
\<close>

theorem long_key_not_found_counterexample:
  "insert_ht 10 (test_config None (3/4) MARK) empty7 (Some long_key) (Some 1) = Return () long_stored
   \<and> take 31 (take 31 long_key @ ''Z'') = take 31 long_key
   \<and> find_ht 10 (test_config None (3/4) MARK) long_stored (Some (take 31 long_key @ ''Z''))
       = Throw (E_ITEM_NOT_FOUND, ''Item not found in table.'') (long_stored\<lparr>probes := 3\<rparr>)
   \<and> find_ht 10 (test_config None (3/4) MARK) long_stored (Some long_key)
       = Throw (E_ITEM_NOT_FOUND, ''Item not found in table.'') (long_stored\<lparr>probes := 3\<rparr>)"
  by code_simp

text \<open>
  C10, as amended: a stored key is the first \<open>MAX_KEYLEN - 1\<close> characters of the key
  inserted. After an \<open>insert\<close> of \<open>k1\<close> that returns, into a table in which no occupied
  slot holds that truncated key, \<open>find\<close> returns the inserted value for the key \<open>k2\<close>
  that is exactly the truncated key, provided the hash functions give \<open>k2\<close> the
  start index and the stride of \<open>k1\<close>; and no \<open>find\<close> of a key longer than
  \<open>MAX_KEYLEN - 1\<close> characters returns, whatever the fuel.
\<close>

theorem truncated_key_lookup:
  assumes "insert_ht n cfg t (Some k1) d = Return u t'"
    and "k2 = take (MAX_KEYLEN cfg - 1) k1"
    and "key_absent t k2" and "keys_fit cfg t"
    and "primary_hash_func cfg k2 (tableSize t') = primary_hash_func cfg k1 (tableSize t')"
    and "stride_of cfg t' k2 = stride_of cfg t' k1"
  shows "(\<exists>p. find_ht n cfg t' (Some k2) = Return d (t'\<lparr>probes := p\<rparr>)) \<and>
         (\<forall>k3 m v t''. MAX_KEYLEN cfg - 1 < length k3 \<longrightarrow> find_ht m cfg t' (Some k3) \<noteq> Return v t'')"
proof
  show "\<exists>p. find_ht n cfg t' (Some k2) = Return d (t'\<lparr>probes := p\<rparr>)"
    by (rule insert_then_find_gen[OF assms(1) assms(3,4) assms(2) assms(5,6)])
next
  from insert_keys_fit[of n cfg t "Some k1" d] assms(1,4) have fit: "keys_fit cfg t'" by simp
  show "\<forall>k3 m v t''. MAX_KEYLEN cfg - 1 < length k3 \<longrightarrow> find_ht m cfg t' (Some k3) \<noteq> Return v t''"
  proof (intro allI impI notI)
    fix k3 m v t''
    assume long: "MAX_KEYLEN cfg - 1 < length k3" and f: "find_ht m cfg t' (Some k3) = Return v t''"
    from f obtain j pr' where "find_loop m t' k3 (primary_hash_func cfg k3 (tableSize t'))
        (stride_of cfg t' k3) (primary_hash_func cfg k3 (tableSize t')) (probes t') = FindEnd True j pr'"
      by (auto simp: Let_def split: find_end.splits if_splits)
    from find_loop_found[OF this] obtain s where "slot_at t' j = Some s" "Key s = k3" by blast
    then have "s \<in> set (table t')" "Key s = k3"
      by (auto simp: slot_at_def split: if_splits)
    with fit long show False by (auto simp: keys_fit_def list_all_iff)
  qed
qed

theorem truncated_key_lookup_witness:
  "insert_ht 10 (test_config None (3/4) MARK) empty7 (Some long_key) (Some 1) = Return () long_stored
   \<and> take 31 long_key = take (MAX_KEYLEN (test_config None (3/4) MARK) - 1) long_key
   \<and> key_absent empty7 (take 31 long_key) \<and> keys_fit (test_config None (3/4) MARK) empty7
   \<and> (\<exists>p. find_ht 10 (test_config None (3/4) MARK) long_stored (Some (take 31 long_key))
          = Return (Some 1) (long_stored\<lparr>probes := p\<rparr>))
   \<and> MAX_KEYLEN (test_config None (3/4) MARK) - 1 < length long_key
   \<and> find_ht 10 (test_config None (3/4) MARK) long_stored (Some long_key) \<noteq> Return (Some 1) empty7"
proof -
  let ?C = "test_config None (3/4) MARK"
  let ?T = long_stored
  have 1: "insert_ht 10 ?C empty7 (Some long_key) (Some 1) = Return () ?T" by code_simp
  have 2: "take 31 long_key = take (MAX_KEYLEN ?C - 1) long_key" by code_simp
  have 3: "key_absent empty7 (take 31 long_key)" by code_simp
  have 4: "keys_fit ?C empty7" by code_simp
  have 5: "primary_hash_func ?C (take 31 long_key) (tableSize ?T) = primary_hash_func ?C long_key (tableSize ?T)"
    by code_simp
  have 6: "stride_of ?C ?T (take 31 long_key) = stride_of ?C ?T long_key" by code_simp
  have 7: "MAX_KEYLEN ?C - 1 < length long_key" by code_simp
  note th = truncated_key_lookup[OF 1 2 3 4 5 6]
  from th have "\<exists>p. find_ht 10 ?C ?T (Some (take 31 long_key)) = Return (Some 1) (?T\<lparr>probes := p\<rparr>)"
    by blast
  moreover from th 7 have "find_ht 10 ?C ?T (Some long_key) \<noteq> Return (Some 1) empty7"
    by blast
  ultimately show ?thesis using 1 2 3 4 7 by blast
qed

end
